theory Spec2Isabelle
  imports Main "HOL-Library.Sublist" "HOL-Library.AList"
begin

section \<open>Data model\<close>

text \<open>
  The interface \<open>Question\<close> of the type declarations. The fields \<open>id\<close> and
  \<open>text\<close> carry a suffix, since both names are taken in Isabelle. A field that the
  code tests before it reads it (\<open>q.companyTag && ...\<close>) or that the interface marks
  optional (\<open>sources?\<close>) is an option: \<open>None\<close> is JavaScript's \<open>undefined\<close>.
  Timestamps are the integers that \<open>Date.now()\<close> produces.
\<close>

type_synonym groundingChunk = "(string \<times> string) option"

record question =
  id_q :: string
  text_q :: string
  answer :: string
  category :: string
  companyTag :: "string option"
  createdAt :: int
  updatedAt :: int
  isAiGenerated :: bool
  sources :: "groundingChunk list option"

text \<open>
  What \<open>JSON.parse\<close> can return at the top level: a value that is not an array, or
  an array. The arrays of the model hold elements of one type, \<open>question\<close> for the
  question keys and \<open>string\<close> for the category key.
\<close>

datatype 'a jsvalue =
    JNull
  | JBool bool
  | JNum int
  | JStr string
  | JObject "(string \<times> 'a jsvalue) list"
  | JArray "'a list"

text \<open>
  The text stored under one key of \<open>localStorage\<close>, by what \<open>JSON.parse\<close> does on
  it: the empty text, a non-empty text that \<open>JSON.parse\<close> rejects, or a text that
  denotes a value. \<open>getItem\<close> returns \<open>None\<close> (\<open>null\<close>) for a key that is absent.
\<close>

datatype 'a stored = EmptyString | Malformed | Json "'a jsvalue"

datatype error = SyntaxError | TypeError | InvalidFormat

text \<open>
  The state the storage service works on: the keys of \<open>localStorage\<close> that hold
  question data, the category key, and the module-level array \<open>DEFAULT_CATEGORIES\<close>,
  which \<open>getCategories\<close> hands out by reference.
\<close>

record state =
  questionItems :: "string \<Rightarrow> question stored option"
  categoryItem :: "string stored option"
  defaultCategories :: "string list"

definition STORAGE_KEY :: string where
  "STORAGE_KEY = ''interview_prep_questions_v1''"

definition LEGACY_KEYS :: "string list" where
  "LEGACY_KEYS = [''interview_questions'', ''interview_prep_questions'', ''interview_app_data'']"

definition DEFAULT_CATEGORIES :: "string list" where
  "DEFAULT_CATEGORIES =
     [''Algorithm'', ''Reinforcement Learning'', ''SFT'', ''Machine Learning'', ''NLP'',
      ''Multimodal'', ''Software Engineering'', ''Behavioral'', ''Other'']"

section \<open>JavaScript primitives the service uses\<close>

text \<open>\<open>if (stored)\<close>: \<open>null\<close> and the empty string are falsy, every other string is truthy.\<close>

fun truthy :: "'a stored option \<Rightarrow> bool" where
  "truthy None = False"
| "truthy (Some EmptyString) = False"
| "truthy (Some _) = True"

fun JSON_parse :: "'a stored \<Rightarrow> error + 'a jsvalue" where
  "JSON_parse EmptyString = Inl SyntaxError"
| "JSON_parse Malformed = Inl SyntaxError"
| "JSON_parse (Json v) = Inr v"

definition JSON_stringify :: "'a jsvalue \<Rightarrow> 'a stored" where
  "JSON_stringify v = Json v"

fun isArray :: "'a jsvalue \<Rightarrow> bool" where
  "isArray (JArray _) = True"
| "isArray _ = False"

definition getItem :: "state \<Rightarrow> string \<Rightarrow> question stored option" where
  "getItem st k = questionItems st k"

definition setItem :: "string \<Rightarrow> question stored \<Rightarrow> state \<Rightarrow> state" where
  "setItem k v st = st\<lparr>questionItems := (questionItems st)(k := Some v)\<rparr>"

text \<open>\<open>Array.prototype.findIndex\<close>: the first index whose element passes, or \<open>-1\<close>.\<close>

fun findIndex :: "('a \<Rightarrow> bool) \<Rightarrow> 'a list \<Rightarrow> int" where
  "findIndex p [] = -1"
| "findIndex p (x # xs) =
     (if p x then 0 else (let i = findIndex p xs in if i < 0 then -1 else i + 1))"

section \<open>The question store (storage service with categories)\<close>

text \<open>
  \<open>getQuestions\<close>: the body of the \<open>try\<close> block either returns or throws; the
  \<open>catch\<close> turns every throw into the empty array.
\<close>

definition getQuestions_try :: "state \<Rightarrow> error + question jsvalue" where
  "getQuestions_try st =
     (let stored = getItem st STORAGE_KEY in
      if truthy stored then JSON_parse (the stored) else Inr (JArray []))"

definition getQuestions :: "state \<Rightarrow> error + question jsvalue" where
  "getQuestions st =
     (case getQuestions_try st of Inl e \<Rightarrow> Inr (JArray []) | Inr v \<Rightarrow> Inr v)"

text \<open>
  \<open>saveQuestion\<close>: a value that is not an array has no \<open>findIndex\<close>, so the call
  throws before anything is written.
\<close>

definition saveQuestion :: "state \<Rightarrow> question \<Rightarrow> (error + unit) \<times> state" where
  "saveQuestion st question =
     (case getQuestions st of
        Inl e \<Rightarrow> (Inl e, st)
      | Inr (JArray questions) \<Rightarrow>
          (let existingIndex = findIndex (\<lambda>q. id_q q = id_q question) questions;
               questions' = (if existingIndex \<ge> 0
                             then questions[nat existingIndex := question]
                             else question # questions)
           in (Inr (), setItem STORAGE_KEY (JSON_stringify (JArray questions')) st))
      | Inr _ \<Rightarrow> (Inl TypeError, st))"

text \<open>A sequence of \<open>saveQuestion\<close> calls, each on the state the one before left.\<close>

fun saveQuestions :: "state \<Rightarrow> question list \<Rightarrow> state" where
  "saveQuestions st [] = st"
| "saveQuestions st (q # qs) = saveQuestions (snd (saveQuestion st q)) qs"

section \<open>Importing a batch\<close>

text \<open>
  A JavaScript \<open>Map\<close> keeps its keys in the order of their first insertion: \<open>set\<close> on
  a key that is present replaces the value where it stands, \<open>set\<close> on a new key appends
  at the end. \<open>new Map(pairs)\<close> sets the pairs one after the other, \<open>values()\<close> lists
  the values in key order.
\<close>

fun Map_set :: "'k \<Rightarrow> 'v \<Rightarrow> ('k \<times> 'v) list \<Rightarrow> ('k \<times> 'v) list" where
  "Map_set k v [] = [(k, v)]"
| "Map_set k v ((k', v') # m) =
     (if k' = k then (k', v) # m else (k', v') # Map_set k v m)"

definition new_Map :: "('k \<times> 'v) list \<Rightarrow> ('k \<times> 'v) list" where
  "new_Map pairs = fold (\<lambda>(k, v) m. Map_set k v m) pairs []"

definition Map_values :: "('k \<times> 'v) list \<Rightarrow> 'v list" where
  "Map_values m = map snd m"

text \<open>
  \<open>Array.prototype.sort(cmp)\<close> is stable. For a comparator that orders the elements
  consistently, every stable sort returns the same array; the model computes it by
  insertion, where \<open>cmp x y \<le> 0\<close> keeps \<open>x\<close> in front of \<open>y\<close>.
\<close>

fun insert_by :: "('a \<Rightarrow> 'a \<Rightarrow> int) \<Rightarrow> 'a \<Rightarrow> 'a list \<Rightarrow> 'a list" where
  "insert_by cmp x [] = [x]"
| "insert_by cmp x (y # ys) =
     (if cmp x y \<le> 0 then x # y # ys else y # insert_by cmp x ys)"

definition Array_sort :: "('a \<Rightarrow> 'a \<Rightarrow> int) \<Rightarrow> 'a list \<Rightarrow> 'a list" where
  "Array_sort cmp xs = foldr (insert_by cmp) xs []"

fun the_array :: "'a jsvalue \<Rightarrow> 'a list" where
  "the_array (JArray xs) = xs"
| "the_array _ = []"

text \<open>
  \<open>importQuestions\<close>: the guard throws \<open>Error('Invalid data format')\<close>; a stored value
  that is not an array has no \<open>map\<close>, so the call throws a \<open>TypeError\<close>; in both cases
  nothing has been written. \<open>q.id && q.text\<close> holds when both strings are non-empty.
\<close>

definition importQuestions :: "state \<Rightarrow> question jsvalue \<Rightarrow> (error + unit) \<times> state" where
  "importQuestions st newQuestions =
     (if \<not> isArray newQuestions then (Inl InvalidFormat, st)
      else
        (case getQuestions st of
           Inl e \<Rightarrow> (Inl e, st)
         | Inr (JArray currentQuestions) \<Rightarrow>
             (let currentMap = new_Map (map (\<lambda>q. (id_q q, q)) currentQuestions);
                  currentMap' = fold (\<lambda>q m. if id_q q \<noteq> [] \<and> text_q q \<noteq> []
                                             then Map_set (id_q q) q m else m)
                                     (the_array newQuestions) currentMap;
                  merged = Array_sort (\<lambda>a b. createdAt b - createdAt a) (Map_values currentMap')
              in (Inr (), setItem STORAGE_KEY (JSON_stringify (JArray merged)) st))
         | Inr _ \<Rightarrow> (Inl TypeError, st)))"

text \<open>
  For the proofs: the pairs \<open>[q.id, q]\<close> that the \<open>Map\<close> is built from, and the entries
  of \<open>currentMap\<close> once \<open>forEach\<close> has run over the batch \<open>b\<close>, on a store that
  held \<open>cur\<close>.
\<close>

abbreviation (input) keyed :: "question list \<Rightarrow> (string \<times> question) list" where
  "keyed qs \<equiv> map (\<lambda>q. (id_q q, q)) qs"

definition merged_entries :: "question list \<Rightarrow> question list \<Rightarrow> (string \<times> question) list" where
  "merged_entries cur b =
     fold (\<lambda>(k, v) m. Map_set k v m)
       (keyed (cur @ filter (\<lambda>q. id_q q \<noteq> [] \<and> text_q q \<noteq> []) b)) []"

section \<open>The question store with legacy keys\<close>

text \<open>
  The \<open>for\<close> loop of the later \<open>getQuestions\<close> over the legacy keys that are left.
  A legacy text that does not parse is skipped by the inner \<open>catch\<close> (\<open>continue\<close>);
  so is one that parses to anything but a non-empty array. The first non-empty array is
  written under the canonical key and returned. When the loop ends, \<open>[]\<close> is returned.
\<close>

fun recover :: "state \<Rightarrow> string list \<Rightarrow> (error + question jsvalue) \<times> state" where
  "recover st [] = (Inr (JArray []), st)"
| "recover st (legacyKey # keys) =
     (let legacyData = getItem st legacyKey in
      if truthy legacyData then
        (case JSON_parse (the legacyData) of
           Inl e \<Rightarrow> recover st keys
         | Inr parsed \<Rightarrow>
             if isArray parsed \<and> length (the_array parsed) > 0
             then (Inr parsed, setItem STORAGE_KEY (JSON_stringify parsed) st)
             else recover st keys)
      else recover st keys)"

definition getQuestions_legacy_try :: "state \<Rightarrow> (error + question jsvalue) \<times> state" where
  "getQuestions_legacy_try st =
     (let stored = getItem st STORAGE_KEY in
      if truthy stored then (JSON_parse (the stored), st)
      else recover st LEGACY_KEYS)"

text \<open>The outer \<open>catch\<close> logs and returns \<open>[]\<close>.\<close>

definition getQuestions_legacy :: "state \<Rightarrow> (error + question jsvalue) \<times> state" where
  "getQuestions_legacy st =
     (case getQuestions_legacy_try st of
        (Inl e, st') \<Rightarrow> (Inr (JArray []), st')
      | (Inr v, st') \<Rightarrow> (Inr v, st'))"

text \<open>For the statements: the legacy key \<open>k\<close> holds a non-empty array.\<close>

fun holds_records :: "state \<Rightarrow> string \<Rightarrow> bool" where
  "holds_records st k =
     (case getItem st k of
        Some (Json (JArray (r # rs))) \<Rightarrow> True
      | _ \<Rightarrow> False)"

section \<open>The category store\<close>

text \<open>
  \<open>String.prototype.includes\<close> and \<open>indexOf\<close> on arrays. \<open>includes_js s t\<close> holds when
  \<open>t\<close> occurs in \<open>s\<close> at some position; the empty string occurs in every string.
\<close>

fun includes_js :: "'a list \<Rightarrow> 'a list \<Rightarrow> bool" where
  "includes_js [] t = (t = [])"
| "includes_js (c # s) t = (take (length t) (c # s) = t \<or> includes_js s t)"

definition indexOf :: "'a \<Rightarrow> 'a list \<Rightarrow> int" where
  "indexOf a xs = findIndex (\<lambda>x. x = a) xs"

text \<open>
  \<open>getCategories\<close> has no \<open>try\<close>: a text that does not parse throws. With nothing
  stored it returns the array \<open>DEFAULT_CATEGORIES\<close> itself, not a copy.
\<close>

definition getCategories :: "state \<Rightarrow> error + string jsvalue" where
  "getCategories st =
     (let stored = categoryItem st in
      if truthy stored then JSON_parse (the stored)
      else Inr (JArray (defaultCategories st)))"

definition saveCategories :: "string jsvalue \<Rightarrow> state \<Rightarrow> state" where
  "saveCategories categories st = st\<lparr>categoryItem := Some (JSON_stringify categories)\<rparr>"

text \<open>
  \<open>renameCategory\<close>. On an array, \<open>categories[index] = newName\<close> writes into the array that
  \<open>getCategories\<close> returned: into \<open>DEFAULT_CATEGORIES\<close> when nothing was stored. The
  categories are saved before the questions are read, so a throw in the second half leaves
  them saved. A stored JSON string has an \<open>indexOf\<close> of its own: when \<open>oldName\<close> occurs
  in it, the assignment to an index of a string throws in module code, otherwise the
  function returns at \<open>index === -1\<close>. Every other value has no \<open>indexOf\<close>.
\<close>

definition renameCategory :: "state \<Rightarrow> string \<Rightarrow> string \<Rightarrow> (error + unit) \<times> state" where
  "renameCategory st oldName newName =
     (case getCategories st of
        Inl e \<Rightarrow> (Inl e, st)
      | Inr (JArray categories) \<Rightarrow>
          (let index = indexOf oldName categories in
           if index = -1 then (Inr (), st)
           else
             (let categories' = categories[nat index := newName];
                  st1 = (if truthy (categoryItem st) then st
                         else st\<lparr>defaultCategories := categories'\<rparr>);
                  st2 = saveCategories (JArray categories') st1
              in (case getQuestions st2 of
                    Inl e \<Rightarrow> (Inl e, st2)
                  | Inr (JArray questions) \<Rightarrow>
                      (let questions' = map (\<lambda>q. if category q = oldName
                                                   then q\<lparr>category := newName\<rparr> else q) questions;
                           updated = list_ex (\<lambda>q. category q = oldName) questions
                       in (Inr (), if updated
                                   then setItem STORAGE_KEY (JSON_stringify (JArray questions')) st2
                                   else st2))
                  | Inr _ \<Rightarrow> (Inl TypeError, st2))))
      | Inr (JStr s) \<Rightarrow> (if includes_js s oldName then (Inl TypeError, st) else (Inr (), st))
      | Inr _ \<Rightarrow> (Inl TypeError, st))"

text \<open>
  \<open>removeCategory\<close>: \<open>filter\<close> builds a new array, and only arrays have it. There is
  no test on \<open>name\<close>.
\<close>

definition removeCategory :: "state \<Rightarrow> string \<Rightarrow> (error + unit) \<times> state" where
  "removeCategory st name =
     (case getCategories st of
        Inl e \<Rightarrow> (Inl e, st)
      | Inr (JArray stored) \<Rightarrow>
          (let categories = filter (\<lambda>c. c \<noteq> name) stored;
               st1 = saveCategories (JArray categories) st
           in (case getQuestions st1 of
                 Inl e \<Rightarrow> (Inl e, st1)
               | Inr (JArray questions) \<Rightarrow>
                   (let questions' = map (\<lambda>q. if category q = name
                                                then q\<lparr>category := ''Other''\<rparr> else q) questions;
                        updated = list_ex (\<lambda>q. category q = name) questions
                    in (Inr (), if updated
                                then setItem STORAGE_KEY (JSON_stringify (JArray questions')) st1
                                else st1))
               | Inr _ \<Rightarrow> (Inl TypeError, st1)))
      | Inr _ \<Rightarrow> (Inl TypeError, st))"

text \<open>
  The handler of the delete button. \<open>confirmed\<close> is the answer of the \<open>confirm\<close> dialog.
  The refresh that follows only reads.
\<close>

definition handleRemoveCat :: "state \<Rightarrow> string \<Rightarrow> bool \<Rightarrow> (error + unit) \<times> state" where
  "handleRemoveCat st name confirmed =
     (if name = ''Other'' then (Inr (), st)
      else if confirmed then removeCategory st name
      else (Inr (), st))"

text \<open>
  The handler of the rename field (\<open>Save\<close> and the Enter key). \<open>trim\<close> is the
  engine's \<open>String.prototype.trim\<close>, a parameter like \<open>toLowerCase\<close> below. There is no
  test on \<open>oldName\<close>, and the pencil that opens the field is drawn for every label.
\<close>

definition handleRenameCat ::
  "(string \<Rightarrow> string) \<Rightarrow> state \<Rightarrow> string \<Rightarrow> string \<Rightarrow> (error + unit) \<times> state" where
  "handleRenameCat trim st oldName newName =
     (if trim newName = [] \<or> oldName = newName then (Inr (), st)
      else renameCategory st oldName newName)"

section \<open>The filtered view\<close>

text \<open>
  \<open>String.prototype.toLowerCase\<close> is a built-in of the engine; the Unicode case mappings
  it follows are no part of the repository. The model takes the function as the parameter
  \<open>toLowerCase\<close>. A string of the model is the UTF-8 encoding of the JavaScript string,
  on which \<open>includes\<close> finds the same occurrences. A method call on \<open>undefined\<close>
  throws a \<open>TypeError\<close>.
\<close>

fun toLowerCase_of :: "(string \<Rightarrow> string) \<Rightarrow> string option \<Rightarrow> error + string" where
  "toLowerCase_of toLowerCase None = Inl TypeError"
| "toLowerCase_of toLowerCase (Some s) = Inr (toLowerCase s)"

text \<open>\<open>undefined\<close> and the empty string are falsy.\<close>

fun truthy_string :: "string option \<Rightarrow> bool" where
  "truthy_string None = False"
| "truthy_string (Some s) = (s \<noteq> [])"

text \<open>
  The three tests of the callback. In \<open>A || (B && C)\<close> the right side runs only when
  \<open>A\<close> is false, and \<open>C\<close> only when \<open>B\<close> is truthy.
\<close>

definition matchCategory :: "string \<Rightarrow> question \<Rightarrow> bool" where
  "matchCategory selectedCategory q \<longleftrightarrow>
     selectedCategory = ''All'' \<or> category q = selectedCategory"

definition matchDate :: "string \<Rightarrow> int \<Rightarrow> question \<Rightarrow> bool" where
  "matchDate dateFilter now q =
     (if dateFilter \<noteq> ''all'' then
        (let diff = now - updatedAt q;
             oneDay = 24 * 60 * 60 * 1000
         in if dateFilter = ''today'' then diff < oneDay
            else if dateFilter = ''week'' then diff < oneDay * 7
            else if dateFilter = ''month'' then diff < oneDay * 30
            else if dateFilter = ''year'' then diff < oneDay * 365
            else True)
      else True)"

definition matchSearch :: "(string \<Rightarrow> string) \<Rightarrow> string \<Rightarrow> question \<Rightarrow> error + bool" where
  "matchSearch toLowerCase searchQuery q =
     (if includes_js (toLowerCase (text_q q)) (toLowerCase searchQuery) then Inr True
      else if truthy_string (companyTag q) then
        (case toLowerCase_of toLowerCase (companyTag q) of
           Inl e \<Rightarrow> Inl e
         | Inr t \<Rightarrow> Inr (includes_js t (toLowerCase searchQuery)))
      else Inr False)"

text \<open>\<open>Array.prototype.filter\<close> with a callback that may throw.\<close>

fun Array_filter :: "('a \<Rightarrow> error + bool) \<Rightarrow> 'a list \<Rightarrow> error + 'a list" where
  "Array_filter p [] = Inr []"
| "Array_filter p (x # xs) =
     (case p x of
        Inl e \<Rightarrow> Inl e
      | Inr keep \<Rightarrow>
          (case Array_filter p xs of
             Inl e \<Rightarrow> Inl e
           | Inr ys \<Rightarrow> Inr (if keep then x # ys else ys)))"

text \<open>\<open>filteredQuestions\<close>; \<open>now\<close> is the value of \<open>Date.now()\<close>.\<close>

definition filteredQuestions ::
  "(string \<Rightarrow> string) \<Rightarrow> question list \<Rightarrow> string \<Rightarrow> string \<Rightarrow> string \<Rightarrow> int
     \<Rightarrow> error + question list" where
  "filteredQuestions toLowerCase questions selectedCategory dateFilter searchQuery now =
     Array_filter
       (\<lambda>q. case matchSearch toLowerCase searchQuery q of
               Inl e \<Rightarrow> Inl e
             | Inr found \<Rightarrow>
                 Inr (matchCategory selectedCategory q \<and> matchDate dateFilter now q \<and> found))
       questions"

subsection \<open>The three predicates in the words of the specification\<close>

text \<open>
  Category: pass-through for \<open>All\<close>, else equality. Date: for the buckets \<open>today\<close>,
  \<open>week\<close>, \<open>month\<close>, \<open>year\<close> the record was updated less than 1, 7, 30, 365 days
  before \<open>now\<close>; any other filter lets every record pass.
\<close>

definition category_predicate :: "string \<Rightarrow> question \<Rightarrow> bool" where
  "category_predicate categoryFilter q \<longleftrightarrow> categoryFilter = ''All'' \<or> category q = categoryFilter"

definition bucket_days :: "string \<Rightarrow> int option" where
  "bucket_days dateFilter =
     (if dateFilter = ''today'' then Some 1
      else if dateFilter = ''week'' then Some 7
      else if dateFilter = ''month'' then Some 30
      else if dateFilter = ''year'' then Some 365
      else None)"

definition date_predicate :: "string \<Rightarrow> int \<Rightarrow> question \<Rightarrow> bool" where
  "date_predicate dateFilter now q \<longleftrightarrow>
     (case bucket_days dateFilter of
        None \<Rightarrow> True
      | Some n \<Rightarrow> now - updatedAt q < n * 86400000)"

text \<open>
  Text: a case-insensitive substring match. It is stated without any lower-casing of
  strings, from a relation \<open>same\<close> between characters (\<open>same c d\<close>: the two are one
  letter, case aside): the query matches at the front of a text when it is no longer than
  the text and agrees with it character by character up to \<open>same\<close>, and it occurs in
  the text when it matches at the front of the text or of what is left after dropping
  characters from the front. A record passes when the query occurs in its text, or in
  its company tag if it has one.
\<close>

fun caseless_prefix :: "('a \<Rightarrow> 'a \<Rightarrow> bool) \<Rightarrow> 'a list \<Rightarrow> 'a list \<Rightarrow> bool" where
  "caseless_prefix same [] t = True"
| "caseless_prefix same (c # q) [] = False"
| "caseless_prefix same (c # q) (d # t) = (same c d \<and> caseless_prefix same q t)"

fun caseless_occurs :: "('a \<Rightarrow> 'a \<Rightarrow> bool) \<Rightarrow> 'a list \<Rightarrow> 'a list \<Rightarrow> bool" where
  "caseless_occurs same q [] = (q = [])"
| "caseless_occurs same q (d # t) =
     (caseless_prefix same q (d # t) \<or> caseless_occurs same q t)"

definition text_predicate :: "(char \<Rightarrow> char \<Rightarrow> bool) \<Rightarrow> string \<Rightarrow> question \<Rightarrow> bool" where
  "text_predicate same searchText q \<longleftrightarrow>
     caseless_occurs same searchText (text_q q) \<or>
     (case companyTag q of
        None \<Rightarrow> False
      | Some tag \<Rightarrow> caseless_occurs same searchText tag)"

text \<open>
  The letters \<open>A\<close> to \<open>Z\<close> and \<open>a\<close> to \<open>z\<close>: two characters are the same letter when
  they are equal or are the capital and the small form of one letter. On strings of
  ASCII characters the engine's \<open>toLowerCase\<close> replaces each capital by its small form.
\<close>

definition ascii_same_letter :: "char \<Rightarrow> char \<Rightarrow> bool" where
  "ascii_same_letter c d \<longleftrightarrow>
     c = d \<or>
     (65 \<le> (of_char c :: nat) \<and> (of_char c :: nat) \<le> 90 \<and> (of_char d :: nat) = of_char c + 32) \<or>
     (65 \<le> (of_char d :: nat) \<and> (of_char d :: nat) \<le> 90 \<and> (of_char c :: nat) = of_char d + 32)"

definition ascii_small :: "char \<Rightarrow> char" where
  "ascii_small c =
     (if 65 \<le> (of_char c :: nat) \<and> (of_char c :: nat) \<le> 90
      then char_of (of_char c + (32 :: nat)) else c)"

section \<open>Concrete states and records\<close>

text \<open>A browser that has stored nothing yet.\<close>

definition fresh_state :: state where
  "fresh_state =
     \<lparr>questionItems = (\<lambda>k. None), categoryItem = None, defaultCategories = DEFAULT_CATEGORIES\<rparr>"

definition mk_question :: "string \<Rightarrow> string \<Rightarrow> string \<Rightarrow> int \<Rightarrow> question" where
  "mk_question i t c ts =
     \<lparr>id_q = i, text_q = t, answer = [], category = c, companyTag = None,
      createdAt = ts, updatedAt = ts, isAiGenerated = False, sources = None\<rparr>"

text \<open>
  The two records of the filter scenario, stored oldest first, and the same two stored
  newest first.
\<close>

definition question_a :: question where
  "question_a = mk_question ''a'' ''What is attention?'' ''NLP'' 100"

definition question_b :: question where
  "question_b = mk_question ''b'' ''Tell me about yourself'' ''Other'' 200"

definition oldest_first_state :: state where
  "oldest_first_state =
     setItem STORAGE_KEY (JSON_stringify (JArray [question_a, question_b])) fresh_state"

definition newest_first_state :: state where
  "newest_first_state =
     setItem STORAGE_KEY (JSON_stringify (JArray [question_b, question_a])) fresh_state"

text \<open>
  A browser of an earlier version: nothing under the canonical key, garbage under the
  first legacy key, one record under the second.
\<close>

definition legacy_state :: state where
  "legacy_state =
     setItem ''interview_prep_questions'' (Json (JArray [mk_question ''x'' ''old Q'' ''Other'' 1]))
       (setItem ''interview_questions'' Malformed fresh_state)"

text \<open>
  Greek strings in UTF-8: the two capitals alpha and sigma; small alpha followed by the
  small final sigma; the capital sigma alone; the small sigma alone. Lower-casing the
  first gives the second, since a sigma that ends a word takes the final form;
  lower-casing the third gives the fourth.
\<close>

definition capital_alpha_sigma :: string where
  "capital_alpha_sigma = [CHR 0xCE, CHR 0x91, CHR 0xCE, CHR 0xA3]"

definition small_alpha_final_sigma :: string where
  "small_alpha_final_sigma = [CHR 0xCE, CHR 0xB1, CHR 0xCF, CHR 0x82]"

definition capital_sigma :: string where
  "capital_sigma = [CHR 0xCE, CHR 0xA3]"

definition small_sigma :: string where
  "small_sigma = [CHR 0xCF, CHR 0x83]"

definition greek_question :: question where
  "greek_question = mk_question ''g'' capital_alpha_sigma ''Other'' 100"

section \<open>Facts about the primitives\<close>

lemma findIndex_neg_iff: "findIndex p xs < 0 \<longleftrightarrow> (\<forall>x\<in>set xs. \<not> p x)"
  by (induction xs) (auto simp: Let_def)

lemma findIndex_ge_m1: "- 1 \<le> findIndex p xs"
  by (induction xs) (auto simp: Let_def)

lemma findIndex_found:
  "0 \<le> findIndex p xs \<Longrightarrow>
     nat (findIndex p xs) < length xs \<and> p (xs ! nat (findIndex p xs)) \<and>
     (\<forall>j < nat (findIndex p xs). \<not> p (xs ! j))"
proof (induction xs)
  case Nil
  then show ?case by simp
next
  case (Cons x xs)
  show ?case
  proof (cases "p x")
    case True
    then show ?thesis by simp
  next
    case False
    with Cons.prems have nn: "0 \<le> findIndex p xs"
      by (auto simp: Let_def split: if_splits)
    with False have eq: "findIndex p (x # xs) = findIndex p xs + 1"
      by (simp add: Let_def)
    from Cons.IH [OF nn] have ih: "nat (findIndex p xs) < length xs"
      "p (xs ! nat (findIndex p xs))" "\<forall>j < nat (findIndex p xs). \<not> p (xs ! j)"
      by simp_all
    have n: "nat (findIndex p xs + 1) = Suc (nat (findIndex p xs))"
      using nn by simp
    show ?thesis
      unfolding eq n using ih False
      by (auto simp: nth_Cons split: nat.splits)
  qed
qed

lemma getQuestions_setItem:
  "getQuestions (setItem STORAGE_KEY (JSON_stringify v) st) = Inr v"
  by (simp add: getQuestions_def getQuestions_try_def getItem_def setItem_def JSON_stringify_def)

lemma getQuestions_total: "\<exists>v. getQuestions st = Inr v"
  by (simp add: getQuestions_def split: sum.splits)

lemma filter_key_singleton:
  "distinct (map f ys) \<Longrightarrow> y \<in> set ys \<Longrightarrow> filter (\<lambda>r. f r = f y) ys = [y]"
proof (induction ys)
  case Nil
  then show ?case by simp
next
  case (Cons a ys)
  show ?case
  proof (cases "a = y")
    case True
    with Cons.prems have "f y \<notin> f ` set ys" by simp
    then have "\<forall>r\<in>set ys. f r \<noteq> f y" by (metis imageI)
    then have "filter (\<lambda>r. f r = f y) ys = []" by (simp add: filter_empty_conv)
    with True show ?thesis by simp
  next
    case False
    with Cons.prems have "y \<in> set ys" "f a \<noteq> f y" by auto
    with Cons show ?thesis by simp
  qed
qed

lemma saveQuestion_step:
  assumes g: "getQuestions st = Inr (JArray xs)"
  shows "\<exists>zs. saveQuestion st q = (Inr (), setItem STORAGE_KEY (Json (JArray zs)) st) \<and>
           zs = (if 0 \<le> findIndex (\<lambda>r. id_q r = id_q q) xs
                 then xs[nat (findIndex (\<lambda>r. id_q r = id_q q) xs) := q] else q # xs)"
  using g by (simp add: saveQuestion_def Let_def JSON_stringify_def)

lemma upsert_ids:
  assumes "0 \<le> findIndex (\<lambda>r. id_q r = id_q q) xs"
  shows "map id_q (xs[nat (findIndex (\<lambda>r. id_q r = id_q q) xs) := q]) = map id_q xs"
proof -
  from findIndex_found [OF assms]
  have "nat (findIndex (\<lambda>r. id_q r = id_q q) xs) < length xs"
    and "id_q (xs ! nat (findIndex (\<lambda>r. id_q r = id_q q) xs)) = id_q q" by simp_all
  then show ?thesis
    by (simp add: map_update list_update_same_conv)
qed

lemma upsert_mem:
  assumes d: "distinct (map id_q xs)"
  shows "r \<in> set (if 0 \<le> findIndex (\<lambda>r. id_q r = id_q q) xs
                 then xs[nat (findIndex (\<lambda>r. id_q r = id_q q) xs) := q] else q # xs)
         \<longleftrightarrow> r = q \<or> (r \<in> set xs \<and> id_q r \<noteq> id_q q)"
proof (cases "0 \<le> findIndex (\<lambda>r. id_q r = id_q q) xs")
  case True
  let ?i = "nat (findIndex (\<lambda>r. id_q r = id_q q) xs)"
  from findIndex_found [OF True] have i: "?i < length xs" "id_q (xs ! ?i) = id_q q"
    by simp_all
  from d have dx: "distinct xs" by (rule distinct_map [THEN iffD1, THEN conjunct1])
  from d have inj: "inj_on id_q (set xs)" by (simp add: distinct_map)
  have s: "set (xs[?i := q]) = insert q (set xs - {xs ! ?i})"
    using dx i(1) by (rule set_update_distinct)
  have "r \<in> set xs \<and> id_q r \<noteq> id_q q \<longleftrightarrow> r \<in> set xs \<and> r \<noteq> xs ! ?i"
    using inj i by (metis inj_on_eq_iff nth_mem)
  with True s show ?thesis by auto
next
  case False
  then have "\<forall>x\<in>set xs. id_q x \<noteq> id_q q"
    using findIndex_neg_iff [of "\<lambda>r. id_q r = id_q q" xs] by simp
  with False show ?thesis by auto
qed

lemma saveQuestion_state:
  assumes g: "getQuestions st = Inr (JArray xs)" and d: "distinct (map id_q xs)"
  shows "\<exists>zs. getQuestions (snd (saveQuestion st q)) = Inr (JArray zs) \<and>
           distinct (map id_q zs) \<and>
           (\<forall>r. r \<in> set zs \<longleftrightarrow> r = q \<or> (r \<in> set xs \<and> id_q r \<noteq> id_q q))"
proof -
  let ?zs = "if 0 \<le> findIndex (\<lambda>r. id_q r = id_q q) xs
             then xs[nat (findIndex (\<lambda>r. id_q r = id_q q) xs) := q] else q # xs"
  from saveQuestion_step [OF g, of q]
  have s: "saveQuestion st q = (Inr (), setItem STORAGE_KEY (Json (JArray ?zs)) st)" by simp
  have 1: "getQuestions (snd (saveQuestion st q)) = Inr (JArray ?zs)"
    unfolding s using getQuestions_setItem [of "JArray ?zs" st]
    by (simp add: JSON_stringify_def)
  have 2: "distinct (map id_q ?zs)"
  proof (cases "0 \<le> findIndex (\<lambda>r. id_q r = id_q q) xs")
    case True
    with d upsert_ids [OF True] show ?thesis by simp
  next
    case False
    then have "\<forall>x\<in>set xs. id_q x \<noteq> id_q q"
      using findIndex_neg_iff [of "\<lambda>r. id_q r = id_q q" xs] by simp
    with False d show ?thesis by auto
  qed
  from 1 2 upsert_mem [OF d, of _ q] show ?thesis by blast
qed

lemma saveQuestions_invariant:
  assumes "getQuestions st = Inr (JArray xs)" and "distinct (map id_q xs)"
  shows "\<exists>ys. getQuestions (saveQuestions st qs) = Inr (JArray ys) \<and>
           distinct (map id_q ys) \<and>
           (\<forall>r. r \<in> set ys \<longleftrightarrow>
              (filter (\<lambda>q. id_q q = id_q r) qs \<noteq> [] \<and> r = last (filter (\<lambda>q. id_q q = id_q r) qs)) \<or>
              (r \<in> set xs \<and> filter (\<lambda>q. id_q q = id_q r) qs = []))"
  using assms
proof (induction qs arbitrary: st xs)
  case Nil
  then show ?case by simp
next
  case (Cons q qs)
  from saveQuestion_state [OF Cons.prems, of q] obtain zs where
    z: "getQuestions (snd (saveQuestion st q)) = Inr (JArray zs)" "distinct (map id_q zs)"
    and zm: "\<And>r. r \<in> set zs \<longleftrightarrow> r = q \<or> (r \<in> set xs \<and> id_q r \<noteq> id_q q)" by blast
  from Cons.IH [OF z] obtain ys where
    y: "getQuestions (saveQuestions (snd (saveQuestion st q)) qs) = Inr (JArray ys)"
       "distinct (map id_q ys)"
    and ym: "\<And>r. r \<in> set ys \<longleftrightarrow>
              (filter (\<lambda>q. id_q q = id_q r) qs \<noteq> [] \<and> r = last (filter (\<lambda>q. id_q q = id_q r) qs)) \<or>
              (r \<in> set zs \<and> filter (\<lambda>q. id_q q = id_q r) qs = [])" by blast
  have "\<And>r. r \<in> set ys \<longleftrightarrow>
          (filter (\<lambda>p. id_q p = id_q r) (q # qs) \<noteq> [] \<and> r = last (filter (\<lambda>p. id_q p = id_q r) (q # qs))) \<or>
          (r \<in> set xs \<and> filter (\<lambda>p. id_q p = id_q r) (q # qs) = [])"
    unfolding ym zm by auto
  with y show ?case by auto
qed

lemma getQuestions_fresh: "getQuestions fresh_state = Inr (JArray [])"
  by (simp add: getQuestions_def getQuestions_try_def getItem_def fresh_state_def)

section \<open>Saving questions\<close>

text \<open>
  Claim C1. Start from a store whose collection has no two records with the same id and
  run any sequence \<open>qs\<close> of \<open>saveQuestion\<close> calls. The collection read afterwards has
  pairwise distinct ids, its ids are the ids it had plus the ids saved, and for every id
  saved it holds exactly one record, the argument of the last call with that id. One call
  on such a store returns normally and writes the collection with the record replaced at
  the position of its id (every other position untouched), or with the record put in
  front when the id is new.
\<close>

theorem saveQuestion_last_write_wins:
  assumes g: "getQuestions st = Inr (JArray xs)" and d: "distinct (map id_q xs)"
  shows "(\<exists>ys. getQuestions (saveQuestions st qs) = Inr (JArray ys) \<and>
            distinct (map id_q ys) \<and>
            id_q ` set ys = id_q ` set xs \<union> id_q ` set qs \<and>
            (\<forall>q\<in>set qs. filter (\<lambda>r. id_q r = id_q q) ys
                             = [last (filter (\<lambda>p. id_q p = id_q q) qs)])) \<and>
         (\<forall>q. \<exists>zs. saveQuestion st q
                        = (Inr (), setItem STORAGE_KEY (JSON_stringify (JArray zs)) st) \<and>
                 (if id_q q \<in> id_q ` set xs
                  then length zs = length xs \<and>
                       (\<forall>j<length xs. zs ! j = (if id_q (xs ! j) = id_q q then q else xs ! j))
                  else zs = q # xs))"
proof (intro conjI allI)
  from saveQuestions_invariant [OF g d, of qs] obtain ys where
    y: "getQuestions (saveQuestions st qs) = Inr (JArray ys)" "distinct (map id_q ys)"
    and ym: "\<And>r. r \<in> set ys \<longleftrightarrow>
              (filter (\<lambda>q. id_q q = id_q r) qs \<noteq> [] \<and> r = last (filter (\<lambda>q. id_q q = id_q r) qs)) \<or>
              (r \<in> set xs \<and> filter (\<lambda>q. id_q q = id_q r) qs = [])" by blast
  have recent: "filter (\<lambda>r. id_q r = id_q q) ys = [last (filter (\<lambda>p. id_q p = id_q q) qs)]"
    if q: "q \<in> set qs" for q
  proof -
    let ?l = "last (filter (\<lambda>p. id_q p = id_q q) qs)"
    from q have ne: "filter (\<lambda>p. id_q p = id_q q) qs \<noteq> []"
      by (auto simp: filter_empty_conv)
    then have "?l \<in> set (filter (\<lambda>p. id_q p = id_q q) qs)" by (rule last_in_set)
    then have lid: "id_q ?l = id_q q" by simp
    with ne have "?l \<in> set ys" unfolding ym [of ?l] by simp
    from filter_key_singleton [OF y(2) this] lid show ?thesis by simp
  qed
  have ids: "id_q ` set ys = id_q ` set xs \<union> id_q ` set qs"
  proof (intro set_eqI iffI)
    fix i assume "i \<in> id_q ` set ys"
    then obtain r where r: "r \<in> set ys" "id_q r = i" by auto
    from r(1) [unfolded ym] show "i \<in> id_q ` set xs \<union> id_q ` set qs"
    proof
      assume "filter (\<lambda>q. id_q q = id_q r) qs \<noteq> [] \<and> r = last (filter (\<lambda>q. id_q q = id_q r) qs)"
      then obtain p where "p \<in> set qs" "id_q p = id_q r"
        by (auto simp: filter_empty_conv)
      with r(2) show ?thesis by (metis UnI2 imageI)
    next
      assume "r \<in> set xs \<and> filter (\<lambda>q. id_q q = id_q r) qs = []"
      with r(2) show ?thesis by auto
    qed
  next
    fix i assume i: "i \<in> id_q ` set xs \<union> id_q ` set qs"
    show "i \<in> id_q ` set ys"
    proof (cases "i \<in> id_q ` set qs")
      case True
      then obtain q where new: "q \<in> set qs" "id_q q = i" by auto
      from recent [OF new(1)]
      have "last (filter (\<lambda>p. id_q p = id_q q) qs) \<in> set (filter (\<lambda>r. id_q r = id_q q) ys)"
        by simp
      then have "last (filter (\<lambda>p. id_q p = id_q q) qs) \<in> set ys"
        and "id_q (last (filter (\<lambda>p. id_q p = id_q q) qs)) = i"
        using new(2) by simp_all
      then show ?thesis by (metis imageI)
    next
      case False
      with i obtain x where old: "x \<in> set xs" "id_q x = i" by auto
      with False have "\<forall>q\<in>set qs. id_q q \<noteq> id_q x" by (metis imageI)
      then have "filter (\<lambda>q. id_q q = id_q x) qs = []"
        by (simp add: filter_empty_conv)
      with old(1) have "x \<in> set ys" unfolding ym [of x] by simp
      with old(2) show ?thesis by (metis imageI)
    qed
  qed
  from y ids recent
  show "\<exists>ys. getQuestions (saveQuestions st qs) = Inr (JArray ys) \<and>
            distinct (map id_q ys) \<and>
            id_q ` set ys = id_q ` set xs \<union> id_q ` set qs \<and>
            (\<forall>q\<in>set qs. filter (\<lambda>r. id_q r = id_q q) ys
                             = [last (filter (\<lambda>p. id_q p = id_q q) qs)])"
    by blast
next
  fix q :: question
  let ?i = "findIndex (\<lambda>r. id_q r = id_q q) xs"
  let ?zs = "if 0 \<le> ?i then xs[nat ?i := q] else q # xs"
  from saveQuestion_step [OF g, of q]
  have s: "saveQuestion st q = (Inr (), setItem STORAGE_KEY (JSON_stringify (JArray ?zs)) st)"
    by (simp add: JSON_stringify_def)
  have "if id_q q \<in> id_q ` set xs
        then length ?zs = length xs \<and>
             (\<forall>j<length xs. ?zs ! j = (if id_q (xs ! j) = id_q q then q else xs ! j))
        else ?zs = q # xs"
  proof (cases "0 \<le> ?i")
    case True
    from findIndex_found [OF True] have i: "nat ?i < length xs" "id_q (xs ! nat ?i) = id_q q"
      by simp_all
    then have mem: "id_q q \<in> id_q ` set xs" by (metis imageI nth_mem)
    have "id_q (xs ! j) = id_q q \<longleftrightarrow> j = nat ?i" if "j < length xs" for j
      using d i that by (metis length_map nth_eq_iff_index_eq nth_map)
    with True mem show ?thesis by (simp add: nth_list_update)
  next
    case False
    then have "\<forall>x\<in>set xs. id_q x \<noteq> id_q q"
      using findIndex_neg_iff [of "\<lambda>r. id_q r = id_q q" xs] by simp
    then have "id_q q \<notin> id_q ` set xs" by auto
    with False show ?thesis by simp
  qed
  with s show "\<exists>zs. saveQuestion st q
                        = (Inr (), setItem STORAGE_KEY (JSON_stringify (JArray zs)) st) \<and>
                 (if id_q q \<in> id_q ` set xs
                  then length zs = length xs \<and>
                       (\<forall>j<length xs. zs ! j = (if id_q (xs ! j) = id_q q then q else xs ! j))
                  else zs = q # xs)" by blast
qed

theorem saveQuestion_last_write_wins_witness:
  "getQuestions fresh_state = Inr (JArray []) \<and>
   (\<exists>ys. getQuestions (saveQuestions fresh_state
             [mk_question ''n'' ''New?'' ''Other'' 100, mk_question ''n'' ''Edited?'' ''Other'' 100])
           = Inr (JArray ys) \<and>
          filter (\<lambda>r. id_q r = ''n'') ys = [mk_question ''n'' ''Edited?'' ''Other'' 100] \<and>
          id_q ` set ys = {''n''})"
  using saveQuestion_last_write_wins [OF getQuestions_fresh, THEN conjunct1, of
      "[mk_question ''n'' ''New?'' ''Other'' 100, mk_question ''n'' ''Edited?'' ''Other'' 100]"]
  by (auto simp: getQuestions_fresh mk_question_def)

section \<open>Facts about maps and sorting\<close>

lemma Map_set_update: "Map_set k v m = AList.update k v m"
  by (induction m) auto

lemma insert_by_createdAt:
  "insert_by (\<lambda>a b. createdAt b - createdAt a) x ys = insort_key (\<lambda>q. - createdAt q) x ys"
  by (induction ys) auto

lemma Array_sort_createdAt:
  "Array_sort (\<lambda>a b. createdAt b - createdAt a) xs = sort_key (\<lambda>q. - createdAt q) xs"
  by (simp add: Array_sort_def sort_key_def insert_by_createdAt [abs_def])

text \<open>Setting a list of pairs, one after the other.\<close>

lemma fold_set_distinct:
  "distinct (map fst m) \<Longrightarrow> distinct (map fst (fold (\<lambda>(k, v) m. Map_set k v m) ps m))"
  by (induction ps arbitrary: m) (auto simp: Map_set_update distinct_update)

lemma fold_set_map_of:
  "map_of (fold (\<lambda>(k, v) m. Map_set k v m) ps m) = map_of m ++ map_of (rev ps)"
proof (induction ps arbitrary: m)
  case Nil
  then show ?case by simp
next
  case (Cons p ps)
  obtain k v where p: "p = (k, v)" by (cases p)
  have "map_of (fold (\<lambda>(k, v) m. Map_set k v m) (p # ps) m)
        = map_of (Map_set k v m) ++ map_of (rev ps)"
    using Cons.IH [of "Map_set k v m"] by (simp add: p)
  also have "\<dots> = (map_of m)(k \<mapsto> v) ++ map_of (rev ps)"
    by (simp add: Map_set_update update_conv')
  also have "\<dots> = map_of m ++ map_of (rev (p # ps))"
    by (simp add: p fun_eq_iff map_add_def split: option.splits)
  finally show ?case .
qed

lemma fold_set_keys_present:
  "fst ` set ps \<subseteq> fst ` set m \<Longrightarrow>
     map fst (fold (\<lambda>(k, v) m. Map_set k v m) ps m) = map fst m"
proof (induction ps arbitrary: m)
  case Nil
  then show ?case by simp
next
  case (Cons p ps)
  obtain k v where p: "p = (k, v)" by (cases p)
  from Cons.prems p have k: "k \<in> fst ` set m" by simp
  then have keys: "map fst (Map_set k v m) = map fst m"
    by (simp add: Map_set_update update_keys)
  then have "fst ` set (Map_set k v m) = fst ` set m"
    by (metis set_map)
  with Cons.prems have "fst ` set ps \<subseteq> fst ` set (Map_set k v m)" by simp
  from Cons.IH [OF this] keys show ?case by (simp add: p)
qed

lemma fold_set_subset:
  "set (fold (\<lambda>(k, v) m. Map_set k v m) ps m) \<subseteq> set ps \<union> set m"
proof (induction ps arbitrary: m)
  case Nil
  then show ?case by simp
next
  case (Cons p ps)
  obtain k v where p: "p = (k, v)" by (cases p)
  have "set (Map_set k v m) \<subseteq> insert (k, v) (set m)"
    by (induction m) (auto split: if_splits)
  with Cons.IH [of "Map_set k v m"] show ?case by (auto simp: p)
qed

lemma alist_eqI:
  "distinct (map fst m) \<Longrightarrow> map fst m = map fst m' \<Longrightarrow> map_of m = map_of m' \<Longrightarrow> m = m'"
proof (induction m arbitrary: m')
  case Nil
  then show ?case by simp
next
  case (Cons p m)
  from Cons.prems(2) obtain p' n where m': "m' = p' # n" by (cases m') auto
  with Cons.prems(2) have f: "fst p' = fst p" and keys: "map fst m = map fst n" by auto
  from fun_cong [OF Cons.prems(3), of "fst p"] f
  have s: "snd p' = snd p" by (cases p; cases p') (simp add: m')
  with f have pp: "p' = p" by (simp add: prod_eq_iff)
  have "map_of m = map_of n"
  proof
    fix x
    show "map_of m x = map_of n x"
    proof (cases "x = fst p")
      case True
      with Cons.prems(1) have "x \<notin> fst ` set m" by auto
      with keys have "x \<notin> fst ` set n" by (metis set_map)
      with \<open>x \<notin> fst ` set m\<close> have "map_of m x = None" "map_of n x = None"
        by (simp_all add: map_of_eq_None_iff)
      then show ?thesis by simp
    next
      case False
      from fun_cong [OF Cons.prems(3), of x] False pp
      show ?thesis by (cases p) (simp add: m')
    qed
  qed
  with Cons.IH [of n] Cons.prems(1) keys have "m = n" by simp
  with pp m' show ?case by simp
qed

lemma Map_set_fresh: "k \<notin> fst ` set m \<Longrightarrow> Map_set k v m = m @ [(k, v)]"
  by (induction m) auto

lemma fold_set_fresh:
  "distinct (map fst (m @ ps)) \<Longrightarrow> fold (\<lambda>(k, v) m. Map_set k v m) ps m = m @ ps"
proof (induction ps arbitrary: m)
  case Nil
  then show ?case by simp
next
  case (Cons p ps)
  obtain k v where p: "p = (k, v)" by (cases p)
  from Cons.prems p have "k \<notin> fst ` set m" by auto
  then have s: "Map_set k v m = m @ [(k, v)]" by (rule Map_set_fresh)
  from Cons.prems p have "distinct (map fst ((m @ [(k, v)]) @ ps))" by simp
  from Cons.IH [OF this] s show ?case by (simp add: p)
qed

lemma forEach_set:
  "fold (\<lambda>q m. if id_q q \<noteq> [] \<and> text_q q \<noteq> [] then Map_set (id_q q) q m else m) b m
   = fold (\<lambda>(k, v) m. Map_set k v m) (keyed (filter (\<lambda>q. id_q q \<noteq> [] \<and> text_q q \<noteq> []) b)) m"
  by (induction b arbitrary: m) auto

lemma importQuestions_array:
  assumes "getQuestions st = Inr (JArray cur)"
  shows "importQuestions st (JArray b)
         = (Inr (), setItem STORAGE_KEY
              (JSON_stringify (JArray (sort_key (\<lambda>q. - createdAt q) (map snd (merged_entries cur b))))) st)"
  using assms
  by (simp add: importQuestions_def new_Map_def Map_values_def merged_entries_def forEach_set
      Array_sort_createdAt)

lemma merged_entries_distinct: "distinct (map fst (merged_entries cur b))"
  unfolding merged_entries_def by (rule fold_set_distinct) simp

lemma merged_entries_map_of:
  "map_of (merged_entries cur b)
   = map_of (rev (keyed cur)) ++ map_of (rev (keyed (filter (\<lambda>q. id_q q \<noteq> [] \<and> text_q q \<noteq> []) b)))"
  unfolding merged_entries_def fold_set_map_of
  by (simp add: rev_map)

lemma merged_entries_keyed: "keyed (map snd (merged_entries cur b)) = merged_entries cur b"
proof -
  have "set (merged_entries cur b)
        \<subseteq> set (keyed (cur @ filter (\<lambda>q. id_q q \<noteq> [] \<and> text_q q \<noteq> []) b))"
    unfolding merged_entries_def
    using fold_set_subset [of "keyed (cur @ filter (\<lambda>q. id_q q \<noteq> [] \<and> text_q q \<noteq> []) b)" "[]"]
    by simp
  then have "\<forall>p\<in>set (merged_entries cur b). fst p = id_q (snd p)" by auto
  then show ?thesis by (simp add: map_idI prod_eq_iff)
qed

lemma merged_entries_keys:
  "fst ` set (merged_entries cur b)
   = id_q ` (set cur \<union> {q \<in> set b. id_q q \<noteq> [] \<and> text_q q \<noteq> []})"
proof -
  have "fst ` set (merged_entries cur b) = dom (map_of (merged_entries cur b))"
    by (simp add: dom_map_of_conv_image_fst)
  also have "\<dots> = id_q ` (set cur \<union> {q \<in> set b. id_q q \<noteq> [] \<and> text_q q \<noteq> []})"
    unfolding merged_entries_map_of
    by (auto simp: dom_map_of_conv_image_fst image_iff)
  finally show ?thesis .
qed

lemma merged_entries_ids:
  "map id_q (map snd (merged_entries cur b)) = map fst (merged_entries cur b)"
proof -
  have "map fst (keyed (map snd (merged_entries cur b))) = map fst (merged_entries cur b)"
    by (simp only: merged_entries_keyed)
  then show ?thesis by (simp add: comp_def)
qed

lemma distinct_map_sort_key: "distinct (map g (sort_key f xs)) = distinct (map g xs)"
  by (simp add: distinct_map)

lemma map_add_same: "m ++ m = m"
  by (rule ext) (simp add: map_add_def split: option.splits)

lemma merged_sorted_distinct:
  "distinct (map id_q (sort_key (\<lambda>q. - createdAt q) (map snd (merged_entries cur b))))"
proof -
  have "distinct (map id_q (map snd (merged_entries cur b)))"
    by (simp only: merged_entries_ids merged_entries_distinct)
  then show ?thesis by (simp only: distinct_map_sort_key)
qed

lemma merged_entries_again:
  fixes cur b :: "question list"
  defines "L \<equiv> sort_key (\<lambda>q. - createdAt q) (map snd (merged_entries cur b))"
  shows "merged_entries L b = keyed L"
proof -
  let ?fb = "filter (\<lambda>q. id_q q \<noteq> [] \<and> text_q q \<noteq> []) b"
  let ?set = "\<lambda>(k, v) m. Map_set k v m"
  have dL: "distinct (map fst (keyed L))"
    using merged_sorted_distinct [of cur b] by (simp add: L_def comp_def)
  have setL: "set (keyed L) = set (merged_entries cur b)"
  proof -
    have "set L = set (map snd (merged_entries cur b))"
      by (simp add: L_def)
    then have "(\<lambda>q. (id_q q, q)) ` set L = (\<lambda>q. (id_q q, q)) ` set (map snd (merged_entries cur b))"
      by (rule arg_cong)
    then have "set (keyed L) = set (keyed (map snd (merged_entries cur b)))"
      by (simp only: set_map)
    then show ?thesis by (simp only: merged_entries_keyed)
  qed
  have start: "fold ?set (keyed L) [] = keyed L"
    using fold_set_fresh [of "[]" "keyed L"] dL by simp
  have split: "merged_entries L b = fold ?set (keyed ?fb) (keyed L)"
    by (simp add: merged_entries_def start)
  have "fst ` set (keyed ?fb) \<subseteq> fst ` set (merged_entries cur b)"
    unfolding merged_entries_keys by (auto simp: image_iff)
  then have sub: "fst ` set (keyed ?fb) \<subseteq> fst ` set (keyed L)"
    by (simp only: setL)
  have keys: "map fst (merged_entries L b) = map fst (keyed L)"
    unfolding split using sub by (rule fold_set_keys_present)
  have mo: "map_of (keyed L) = map_of (merged_entries cur b)"
    using map_of_inject_set [OF dL merged_entries_distinct [of cur b]] setL by simp
  have "map_of (merged_entries L b) = map_of (keyed L) ++ map_of (rev (keyed ?fb))"
    unfolding split by (rule fold_set_map_of)
  also have "\<dots> = (map_of (rev (keyed cur)) ++ map_of (rev (keyed ?fb))) ++ map_of (rev (keyed ?fb))"
    by (simp only: mo merged_entries_map_of)
  also have "\<dots> = map_of (rev (keyed cur)) ++ map_of (rev (keyed ?fb))"
    by (simp only: map_add_assoc [symmetric] map_add_same)
  also have "\<dots> = map_of (keyed L)"
    by (simp only: mo merged_entries_map_of)
  finally have maps: "map_of (merged_entries L b) = map_of (keyed L)" .
  have "distinct (map fst (merged_entries L b))" by (rule merged_entries_distinct)
  from alist_eqI [OF this keys maps] show ?thesis .
qed

section \<open>Properties of the import\<close>

lemma setItem_twice: "setItem k v (setItem k v st) = setItem k v st"
  by (simp add: setItem_def)

text \<open>
  Claim C2. \<open>importQuestions\<close> is idempotent: from any state and for any argument, a
  second call with the same argument leaves the state that the first call left. This
  covers the calls that throw (an argument or a stored value that is not an array), which
  write nothing.
\<close>

theorem importQuestions_idempotent:
  "snd (importQuestions (snd (importQuestions st batch)) batch) = snd (importQuestions st batch)"
proof (cases "isArray batch")
  case False
  then show ?thesis by (simp add: importQuestions_def)
next
  case True
  then obtain b where b: "batch = JArray b" by (cases batch) simp_all
  from getQuestions_total [of st] obtain v where v: "getQuestions st = Inr v" ..
  show ?thesis
  proof (cases "isArray v")
    case False
    with v have "importQuestions st batch = (Inl TypeError, st)"
      by (cases v) (simp_all add: importQuestions_def b)
    then show ?thesis by simp
  next
    case True
    then obtain cur where cur: "v = JArray cur" by (cases v) simp_all
    define L where "L = sort_key (\<lambda>q. - createdAt q) (map snd (merged_entries cur b))"
    define st1 where "st1 = setItem STORAGE_KEY (JSON_stringify (JArray L)) st"
    from v cur have 1: "importQuestions st batch = (Inr (), st1)"
      by (simp add: importQuestions_array b L_def st1_def)
    have g1: "getQuestions st1 = Inr (JArray L)"
      unfolding st1_def by (rule getQuestions_setItem)
    have "merged_entries L b = keyed L"
      unfolding L_def by (rule merged_entries_again)
    then have "map snd (merged_entries L b) = L" by (simp add: comp_def)
    moreover have "sort_key (\<lambda>q. - createdAt q) L = L"
      unfolding L_def by (rule sort_key_id_if_sorted) (rule sorted_sort_key)
    ultimately have 2: "importQuestions st1 batch
        = (Inr (), setItem STORAGE_KEY (JSON_stringify (JArray L)) st1)"
      using importQuestions_array [OF g1, of b] by (simp add: b)
    from 1 2 show ?thesis by (simp add: st1_def setItem_twice)
  qed
qed

text \<open>
  Claim C3. An argument that is not an array makes \<open>importQuestions\<close> throw the
  invalid-format error and leaves the state as it was; an argument that is an array never
  yields that error.
\<close>

theorem importQuestions_InvalidFormat:
  "(\<not> isArray v \<longrightarrow> importQuestions st v = (Inl InvalidFormat, st)) \<and>
   (isArray v \<longrightarrow> fst (importQuestions st v) \<noteq> Inl InvalidFormat)"
proof (intro conjI impI)
  assume "\<not> isArray v"
  then show "importQuestions st v = (Inl InvalidFormat, st)"
    by (simp add: importQuestions_def)
next
  assume a: "isArray v"
  from getQuestions_total [of st] obtain w where w: "getQuestions st = Inr w" ..
  show "fst (importQuestions st v) \<noteq> Inl InvalidFormat"
    using a w by (cases w) (simp_all add: importQuestions_def Let_def)
qed

theorem importQuestions_InvalidFormat_witness:
  "importQuestions oldest_first_state (JObject [(''id'', JStr ''x'')])
     = (Inl InvalidFormat, oldest_first_state) \<and>
   importQuestions oldest_first_state (JStr ''[]'') = (Inl InvalidFormat, oldest_first_state) \<and>
   fst (importQuestions oldest_first_state (JArray [])) \<noteq> Inl InvalidFormat"
  using importQuestions_InvalidFormat [of "JObject [(''id'', JStr ''x'')]" oldest_first_state]
    importQuestions_InvalidFormat [of "JStr ''[]''" oldest_first_state]
    importQuestions_InvalidFormat [of "JArray []" oldest_first_state]
  by simp

lemma map_of_rev_keyed:
  "map_of (rev (keyed xs)) i
   = (if filter (\<lambda>p. id_q p = i) xs = [] then None
      else Some (last (filter (\<lambda>p. id_q p = i) xs)))"
  by (induction xs) (auto simp: map_add_def split: option.splits)

lemma merged_entries_lookup:
  assumes q: "q \<in> set b" "id_q q \<noteq> []" "text_q q \<noteq> []"
  shows "map_of (merged_entries cur b) (id_q q)
         = Some (last (filter (\<lambda>p. id_q p = id_q q \<and> text_q p \<noteq> []) b))"
proof -
  let ?fb = "filter (\<lambda>q. id_q q \<noteq> [] \<and> text_q q \<noteq> []) b"
  have eq: "filter (\<lambda>p. id_q p = id_q q) ?fb = filter (\<lambda>p. id_q p = id_q q \<and> text_q p \<noteq> []) b"
    using q(2) by (auto intro: filter_cong)
  from q have "q \<in> set (filter (\<lambda>p. id_q p = id_q q) ?fb)" by simp
  then have ne: "filter (\<lambda>p. id_q p = id_q q) ?fb \<noteq> []" by (metis empty_iff empty_set)
  then have "map_of (rev (keyed ?fb)) (id_q q) = Some (last (filter (\<lambda>p. id_q p = id_q q) ?fb))"
    by (simp only: map_of_rev_keyed if_False)
  then show ?thesis
    by (simp only: merged_entries_map_of map_add_Some_iff eq) simp
qed

text \<open>
  Claim C10. On a store that holds an array, take any record \<open>q\<close> of the batch with a
  non-empty id and a non-empty text. The collection written by \<open>importQuestions\<close> holds
  exactly one record with the id of \<open>q\<close>: the last record of the batch with that id and
  a non-empty text. It replaces the stored record with that id and the earlier records of
  the batch with that id.
\<close>

theorem importQuestions_last_duplicate_wins:
  assumes g: "getQuestions st = Inr (JArray cur)"
    and q: "q \<in> set b" "id_q q \<noteq> []" "text_q q \<noteq> []"
  shows "\<exists>ys. importQuestions st (JArray b)
                 = (Inr (), setItem STORAGE_KEY (JSON_stringify (JArray ys)) st) \<and>
              getQuestions (snd (importQuestions st (JArray b))) = Inr (JArray ys) \<and>
              filter (\<lambda>r. id_q r = id_q q) ys
                = [last (filter (\<lambda>p. id_q p = id_q q \<and> text_q p \<noteq> []) b)]"
proof -
  let ?M = "merged_entries cur b"
  let ?L = "sort_key (\<lambda>q. - createdAt q) (map snd ?M)"
  let ?v = "last (filter (\<lambda>p. id_q p = id_q q \<and> text_q p \<noteq> []) b)"
  have i: "importQuestions st (JArray b)
           = (Inr (), setItem STORAGE_KEY (JSON_stringify (JArray ?L)) st)"
    using g by (rule importQuestions_array)
  then have r: "getQuestions (snd (importQuestions st (JArray b))) = Inr (JArray ?L)"
    by (simp add: getQuestions_setItem)
  from merged_entries_lookup [OF q] have "(id_q q, ?v) \<in> set ?M" by (rule map_of_SomeD)
  then have mem: "?v \<in> set (map snd ?M)" by force
  from q have "q \<in> set (filter (\<lambda>p. id_q p = id_q q \<and> text_q p \<noteq> []) b)" by simp
  then have "filter (\<lambda>p. id_q p = id_q q \<and> text_q p \<noteq> []) b \<noteq> []"
    by (metis empty_iff empty_set)
  then have "?v \<in> set (filter (\<lambda>p. id_q p = id_q q \<and> text_q p \<noteq> []) b)" by (rule last_in_set)
  then have vid: "id_q ?v = id_q q" by simp
  have d: "distinct (map id_q (map snd ?M))"
    by (simp only: merged_entries_ids merged_entries_distinct)
  from filter_key_singleton [OF d mem] vid
  have "filter (\<lambda>r. id_q r = id_q q) (map snd ?M) = [?v]" by simp
  then have "filter (\<lambda>r. id_q r = id_q q) ?L = [?v]"
    by (simp only: filter_sort) simp
  with i r show ?thesis by blast
qed

lemma getQuestions_oldest_first:
  "getQuestions oldest_first_state = Inr (JArray [question_a, question_b])"
  by (simp add: oldest_first_state_def getQuestions_setItem)

lemma getQuestions_newest_first:
  "getQuestions newest_first_state = Inr (JArray [question_b, question_a])"
  by (simp add: newest_first_state_def getQuestions_setItem)

theorem importQuestions_last_duplicate_wins_witness:
  "\<exists>ys. getQuestions (snd (importQuestions oldest_first_state
            (JArray [mk_question ''a'' ''first'' ''NLP'' 300, mk_question ''a'' ''second'' ''NLP'' 50])))
          = Inr (JArray ys) \<and>
        filter (\<lambda>r. id_q r = ''a'') ys = [mk_question ''a'' ''second'' ''NLP'' 50]"
  using importQuestions_last_duplicate_wins [OF getQuestions_oldest_first,
      of "mk_question ''a'' ''second'' ''NLP'' 50"
         "[mk_question ''a'' ''first'' ''NLP'' 300, mk_question ''a'' ''second'' ''NLP'' 50]"]
  by (auto simp: mk_question_def)

text \<open>
  Claim C4 says that an import of the empty array leaves the stored collection as it
  was, records and order. The import always sorts what it writes: a store that holds the
  record created at 100 before the record created at 200 holds them in the other order
  after \<open>importQuestions([])\<close>.
\<close>

theorem importQuestions_empty_reorders:
  "getQuestions oldest_first_state = Inr (JArray [question_a, question_b]) \<and>
   getQuestions (snd (importQuestions oldest_first_state (JArray [])))
     = Inr (JArray [question_b, question_a])"
  by (simp add: getQuestions_oldest_first importQuestions_def new_Map_def Map_values_def
      Array_sort_def getQuestions_setItem question_a_def question_b_def mk_question_def)

text \<open>
  Claim C4, amended. On a store whose collection has pairwise distinct ids, an import of
  the empty array, or of a batch in which every record has an empty id or an empty text,
  returns normally and writes the same records in the stable order of descending
  \<open>createdAt\<close>; when the collection already was in that order, it is written back
  unchanged.
\<close>

theorem importQuestions_nothing_valid:
  assumes g: "getQuestions st = Inr (JArray cur)"
    and d: "distinct (map id_q cur)"
    and b: "\<forall>q\<in>set b. id_q q = [] \<or> text_q q = []"
  shows "\<exists>ys. importQuestions st (JArray b)
                 = (Inr (), setItem STORAGE_KEY (JSON_stringify (JArray ys)) st) \<and>
              getQuestions (snd (importQuestions st (JArray b))) = Inr (JArray ys) \<and>
              ys = sort_key (\<lambda>q. - createdAt q) cur \<and>
              set ys = set cur \<and> length ys = length cur \<and>
              sorted_wrt (\<lambda>x y. createdAt y \<le> createdAt x) ys \<and>
              (sorted_wrt (\<lambda>x y. createdAt y \<le> createdAt x) cur \<longrightarrow> ys = cur)"
proof -
  let ?L = "sort_key (\<lambda>q. - createdAt q) cur"
  from b have "filter (\<lambda>q. id_q q \<noteq> [] \<and> text_q q \<noteq> []) b = []"
    by (auto simp: filter_empty_conv)
  then have "merged_entries cur b = fold (\<lambda>(k, v) m. Map_set k v m) (keyed cur) []"
    by (simp add: merged_entries_def)
  also have "\<dots> = keyed cur"
    using fold_set_fresh [of "[]" "keyed cur"] d by (simp add: comp_def)
  finally have "map snd (merged_entries cur b) = cur" by (simp add: comp_def)
  with importQuestions_array [OF g, of b]
  have i: "importQuestions st (JArray b)
           = (Inr (), setItem STORAGE_KEY (JSON_stringify (JArray ?L)) st)" by simp
  then have r: "getQuestions (snd (importQuestions st (JArray b))) = Inr (JArray ?L)"
    by (simp add: getQuestions_setItem)
  have s: "sorted_wrt (\<lambda>x y. createdAt y \<le> createdAt x) ?L"
    using sorted_sort_key [of "\<lambda>q. - createdAt q" cur] by (simp add: sorted_map)
  have u: "sorted_wrt (\<lambda>x y. createdAt y \<le> createdAt x) cur \<longrightarrow> ?L = cur"
    by (simp add: sort_key_id_if_sorted sorted_map)
  from i r s u show ?thesis by simp
qed

theorem importQuestions_nothing_valid_witness:
  "getQuestions (snd (importQuestions newest_first_state (JArray [])))
     = Inr (JArray [question_b, question_a]) \<and>
   getQuestions (snd (importQuestions newest_first_state
       (JArray [mk_question [] ''no id'' ''NLP'' 300, mk_question ''c'' [] ''NLP'' 400])))
     = getQuestions newest_first_state"
  using importQuestions_nothing_valid [OF getQuestions_newest_first, of "[]"]
    importQuestions_nothing_valid [OF getQuestions_newest_first,
      of "[mk_question [] ''no id'' ''NLP'' 300, mk_question ''c'' [] ''NLP'' 400]"]
  by (simp add: getQuestions_newest_first getQuestions_setItem question_a_def question_b_def
      mk_question_def)

section \<open>Reading with legacy keys\<close>

lemma recover_never_throws: "\<exists>v. fst (recover st keys) = Inr v"
  by (induction keys) (auto simp: Let_def split: sum.splits)

lemma getQuestions_legacy_never_throws: "\<exists>v. fst (getQuestions_legacy st) = Inr v"
  by (auto simp: getQuestions_legacy_def split: prod.splits sum.splits)

lemma getQuestions_legacy_unparseable:
  "getItem st STORAGE_KEY = Some Malformed \<Longrightarrow> getQuestions_legacy st = (Inr (JArray []), st)"
  by (simp add: getQuestions_legacy_def getQuestions_legacy_try_def)

text \<open>
  Claim C5 at a canonical key whose text parses to an object: \<open>getQuestions\<close> returns
  the object, not the empty array. (The two lemmas above give the rest of the claim: no
  throw reaches the caller, and a text that does not parse yields the empty array.)
\<close>

theorem getQuestions_legacy_non_array:
  "getQuestions_legacy (setItem STORAGE_KEY (Json (JObject [(''a'', JNum 1)])) fresh_state)
   = (Inr (JObject [(''a'', JNum 1)]),
      setItem STORAGE_KEY (Json (JObject [(''a'', JNum 1)])) fresh_state)"
  by (simp add: getQuestions_legacy_def getQuestions_legacy_try_def getItem_def setItem_def)

text \<open>
  What the caller then meets: the earlier \<open>getQuestions\<close> returns the object in the
  same way, and \<open>saveQuestion\<close> throws on it, since an object has no \<open>findIndex\<close>.
\<close>

lemma saveQuestion_on_object:
  "saveQuestion (setItem STORAGE_KEY (Json (JObject [(''a'', JNum 1)])) fresh_state) q
   = (Inl TypeError, setItem STORAGE_KEY (Json (JObject [(''a'', JNum 1)])) fresh_state)"
  by (simp add: saveQuestion_def getQuestions_def getQuestions_try_def getItem_def setItem_def)

lemma recover_skips:
  "\<forall>k\<in>set pre. \<not> holds_records st k \<Longrightarrow> recover st (pre @ keys) = recover st keys"
proof (induction pre)
  case Nil
  then show ?case by simp
next
  case (Cons k pre)
  then have k: "\<not> holds_records st k" and pre: "\<forall>k\<in>set pre. \<not> holds_records st k"
    by simp_all
  have "recover st (k # pre @ keys) = recover st (pre @ keys)"
  proof (cases "getItem st k")
    case None
    then show ?thesis by simp
  next
    case (Some t)
    show ?thesis
    proof (cases t)
      case (Json v)
      with Some k show ?thesis
        by (cases v) (auto split: list.splits)
    qed (simp_all add: Some)
  qed
  with Cons.IH [OF pre] show ?case by simp
qed

lemma recover_finds:
  assumes f: "find (holds_records st) keys = Some k"
    and k: "getItem st k = Some (Json (JArray recs))"
  shows "recover st keys
         = (Inr (JArray recs), setItem STORAGE_KEY (JSON_stringify (JArray recs)) st)"
proof -
  from f obtain i where i: "i < length keys" "holds_records st (keys ! i)" "k = keys ! i"
    "\<forall>j<i. \<not> holds_records st (keys ! j)"
    unfolding find_Some_iff by blast
  have split: "keys = take i keys @ k # drop (Suc i) keys"
    using i(1,3) by (simp add: id_take_nth_drop)
  have "\<forall>k'\<in>set (take i keys). \<not> holds_records st k'"
    using i(1,4) by (auto simp: in_set_conv_nth)
  then have "recover st (take i keys @ k # drop (Suc i) keys)
             = recover st (k # drop (Suc i) keys)" by (rule recover_skips)
  moreover from i(2,3) k have "recs \<noteq> []" by (auto split: list.splits)
  then have "recover st (k # drop (Suc i) keys)
        = (Inr (JArray recs), setItem STORAGE_KEY (JSON_stringify (JArray recs)) st)"
    using k by simp
  ultimately show ?thesis using split by simp
qed

text \<open>
  Claim C6. Let the canonical key be absent (or hold the empty text), and let \<open>k\<close> be
  the first legacy key, in the order of \<open>LEGACY_KEYS\<close>, that holds a non-empty array
  \<open>recs\<close>. Then \<open>getQuestions\<close> returns \<open>recs\<close> and writes it under the canonical
  key; the canonical key then reads back as \<open>recs\<close>; a second call returns \<open>recs\<close>
  again and changes nothing; and in any state whose canonical key holds \<open>recs\<close> the
  call returns it without looking at a legacy key, whatever these hold.
\<close>

theorem legacy_migration_once:
  assumes c: "\<not> truthy (getItem st STORAGE_KEY)"
    and f: "find (holds_records st) LEGACY_KEYS = Some k"
    and k: "getItem st k = Some (Json (JArray recs))"
  shows "recs \<noteq> [] \<and>
         getQuestions_legacy st
           = (Inr (JArray recs), setItem STORAGE_KEY (JSON_stringify (JArray recs)) st) \<and>
         getItem (snd (getQuestions_legacy st)) STORAGE_KEY = Some (Json (JArray recs)) \<and>
         getQuestions_legacy (snd (getQuestions_legacy st))
           = (Inr (JArray recs), snd (getQuestions_legacy st)) \<and>
         (\<forall>st'. getItem st' STORAGE_KEY = Some (Json (JArray recs))
                 \<longrightarrow> getQuestions_legacy st' = (Inr (JArray recs), st'))"
proof -
  from f have "holds_records st k" unfolding find_Some_iff by blast
  with k have ne: "recs \<noteq> []" by (auto split: list.splits)
  have 1: "getQuestions_legacy st
           = (Inr (JArray recs), setItem STORAGE_KEY (JSON_stringify (JArray recs)) st)"
    using c recover_finds [OF f k]
    by (simp add: getQuestions_legacy_def getQuestions_legacy_try_def)
  have 3: "getQuestions_legacy st' = (Inr (JArray recs), st')"
    if "getItem st' STORAGE_KEY = Some (Json (JArray recs))" for st'
    using that by (simp add: getQuestions_legacy_def getQuestions_legacy_try_def)
  have 2: "getItem (snd (getQuestions_legacy st)) STORAGE_KEY = Some (Json (JArray recs))"
    by (simp add: 1 getItem_def setItem_def JSON_stringify_def)
  from ne 1 2 3 [OF 2] 3 show ?thesis by blast
qed

theorem legacy_migration_once_witness:
  "getQuestions_legacy legacy_state
     = (Inr (JArray [mk_question ''x'' ''old Q'' ''Other'' 1]),
        setItem STORAGE_KEY (JSON_stringify (JArray [mk_question ''x'' ''old Q'' ''Other'' 1]))
          legacy_state) \<and>
   getQuestions_legacy (snd (getQuestions_legacy legacy_state))
     = (Inr (JArray [mk_question ''x'' ''old Q'' ''Other'' 1]),
        snd (getQuestions_legacy legacy_state))"
proof -
  have c: "\<not> truthy (getItem legacy_state STORAGE_KEY)"
    by (simp add: legacy_state_def getItem_def setItem_def fresh_state_def STORAGE_KEY_def)
  have f: "find (holds_records legacy_state) LEGACY_KEYS = Some ''interview_prep_questions''"
    by (simp add: legacy_state_def getItem_def setItem_def fresh_state_def LEGACY_KEYS_def)
  have k: "getItem legacy_state ''interview_prep_questions''
           = Some (Json (JArray [mk_question ''x'' ''old Q'' ''Other'' 1]))"
    by (simp add: legacy_state_def getItem_def setItem_def)
  from legacy_migration_once [OF c f k] show ?thesis by blast
qed

section \<open>Properties of the category store\<close>

lemma getQuestions_saveCategories [simp]: "getQuestions (saveCategories c st) = getQuestions st"
  by (simp add: getQuestions_def getQuestions_try_def getItem_def saveCategories_def)

lemma getQuestions_defaultCategories [simp]:
  "getQuestions (st\<lparr>defaultCategories := d\<rparr>) = getQuestions st"
  by (simp add: getQuestions_def getQuestions_try_def getItem_def)

lemma getCategories_saveCategories [simp]: "getCategories (saveCategories c st) = Inr c"
  by (simp add: getCategories_def saveCategories_def JSON_stringify_def)

lemma getCategories_setItem [simp]: "getCategories (setItem k v st) = getCategories st"
  by (simp add: getCategories_def setItem_def Let_def)

lemma removeCategory_array:
  assumes c: "getCategories st = Inr (JArray cats)"
  shows "getCategories (snd (removeCategory st name)) = Inr (JArray (filter (\<lambda>c. c \<noteq> name) cats))"
proof -
  from getQuestions_total [of st] obtain v where v: "getQuestions st = Inr v" ..
  show ?thesis
    using c v by (cases v) (simp_all add: removeCategory_def Let_def)
qed

text \<open>
  The remove path is guarded: \<open>handleRemoveCat("Other")\<close> writes nothing in any state,
  so the category list and every question stay as they are, and whatever label the
  handler is called with, a list that holds \<open>Other\<close> still holds it afterwards.
\<close>

lemma handleRemoveCat_Other_rejected:
  "handleRemoveCat st ''Other'' confirmed = (Inr (), st) \<and>
   (\<forall>cats. getCategories st = Inr (JArray cats) \<and> ''Other'' \<in> set cats \<longrightarrow>
      (\<exists>cats'. getCategories (snd (handleRemoveCat st name confirmed)) = Inr (JArray cats') \<and>
               ''Other'' \<in> set cats'))"
proof (intro conjI allI impI)
  show "handleRemoveCat st ''Other'' confirmed = (Inr (), st)"
    by (simp add: handleRemoveCat_def)
next
  fix cats
  assume a: "getCategories st = Inr (JArray cats) \<and> ''Other'' \<in> set cats"
  show "\<exists>cats'. getCategories (snd (handleRemoveCat st name confirmed)) = Inr (JArray cats') \<and>
               ''Other'' \<in> set cats'"
  proof (cases "name \<noteq> ''Other'' \<and> confirmed")
    case True
    with a removeCategory_array [of st cats name] show ?thesis
      by (auto simp: handleRemoveCat_def)
  next
    case False
    then have "handleRemoveCat st name confirmed = (Inr (), st)"
      by (auto simp: handleRemoveCat_def)
    with a show ?thesis by simp
  qed
qed

lemma getCategories_oldest_first:
  "getCategories oldest_first_state = Inr (JArray DEFAULT_CATEGORIES)"
  by (simp add: oldest_first_state_def) (simp add: getCategories_def fresh_state_def)

lemma indexOf_absent: "indexOf a xs = - 1 \<longleftrightarrow> a \<notin> set xs"
proof -
  have "indexOf a xs = - 1 \<longleftrightarrow> indexOf a xs < 0"
    using findIndex_ge_m1 [of "\<lambda>x. x = a" xs] by (auto simp: indexOf_def)
  then show ?thesis by (auto simp: indexOf_def findIndex_neg_iff)
qed

lemma indexOf_present:
  assumes "a \<in> set xs"
  shows "nat (indexOf a xs) < length xs \<and> xs ! nat (indexOf a xs) = a \<and>
         (\<forall>j < nat (indexOf a xs). xs ! j \<noteq> a)"
proof -
  from assms have "\<not> indexOf a xs < 0" by (auto simp: indexOf_def findIndex_neg_iff)
  then have "0 \<le> findIndex (\<lambda>x. x = a) xs" by (simp add: indexOf_def)
  from findIndex_found [OF this] show ?thesis by (simp add: indexOf_def)
qed

lemma renameCategory_array:
  assumes c: "getCategories st = Inr (JArray cats)" and o: "old \<in> set cats"
  shows "getCategories (snd (renameCategory st old new))
         = Inr (JArray (cats[nat (indexOf old cats) := new]))"
proof -
  from o have i: "indexOf old cats \<noteq> - 1" by (simp add: indexOf_absent)
  from getQuestions_total [of st] obtain v where v: "getQuestions st = Inr v" ..
  show ?thesis
    using c i v by (cases v) (simp_all add: renameCategory_def Let_def)
qed

lemma renameCategory_questions:
  assumes c: "getCategories st = Inr (JArray cats)" and o: "old \<in> set cats"
    and q: "getQuestions st = Inr (JArray qs)"
  shows "fst (renameCategory st old new) = Inr () \<and>
         getQuestions (snd (renameCategory st old new))
         = Inr (JArray (map (\<lambda>q. if category q = old then q\<lparr>category := new\<rparr> else q) qs))"
proof -
  from o have i: "indexOf old cats \<noteq> - 1" by (simp add: indexOf_absent)
  have same: "map (\<lambda>q. if category q = old then q\<lparr>category := new\<rparr> else q) qs = qs"
    if "\<not> list_ex (\<lambda>q. category q = old) qs"
    using that by (induction qs) auto
  show ?thesis
    using c i q same
    by (auto simp: renameCategory_def Let_def getQuestions_setItem)
qed

text \<open>
  Claim C8. Let the category list be \<open>cats\<close> and let \<open>old\<close> occur in it. After
  \<open>renameCategory(old, new)\<close> the list is \<open>cats\<close> with \<open>new\<close> at the first position
  of \<open>old\<close> and every other position as before. When the store holds an array of
  questions, the call returns normally and the collection read afterwards is the old one,
  position by position, where a question tagged \<open>old\<close> has only its category changed
  to \<open>new\<close> and every other question is the same record.
\<close>

theorem renameCategory_cascade:
  assumes c: "getCategories st = Inr (JArray cats)" and o: "old \<in> set cats"
  shows "(\<exists>i<length cats. cats ! i = old \<and> (\<forall>j<i. cats ! j \<noteq> old) \<and>
            getCategories (snd (renameCategory st old new)) = Inr (JArray (cats[i := new]))) \<and>
         (\<forall>qs. getQuestions st = Inr (JArray qs) \<longrightarrow>
            fst (renameCategory st old new) = Inr () \<and>
            getQuestions (snd (renameCategory st old new))
              = Inr (JArray (map (\<lambda>q. if category q = old then q\<lparr>category := new\<rparr> else q) qs)))"
  using indexOf_present [OF o] renameCategory_array [OF c o, of new]
    renameCategory_questions [OF c o, of _ new]
  by blast

theorem renameCategory_cascade_witness:
  "getCategories (snd (renameCategory oldest_first_state ''NLP'' ''Language''))
     = Inr (JArray [''Algorithm'', ''Reinforcement Learning'', ''SFT'', ''Machine Learning'',
                    ''Language'', ''Multimodal'', ''Software Engineering'', ''Behavioral'',
                    ''Other'']) \<and>
   getQuestions (snd (renameCategory oldest_first_state ''NLP'' ''Language''))
     = Inr (JArray [question_a\<lparr>category := ''Language''\<rparr>, question_b])"
proof -
  have o: "''NLP'' \<in> set DEFAULT_CATEGORIES" by (simp add: DEFAULT_CATEGORIES_def)
  from renameCategory_cascade [OF getCategories_oldest_first o, of "''Language''"]
  obtain i where i: "i < length DEFAULT_CATEGORIES" "DEFAULT_CATEGORIES ! i = ''NLP''"
    and g: "getCategories (snd (renameCategory oldest_first_state ''NLP'' ''Language''))
            = Inr (JArray (DEFAULT_CATEGORIES[i := ''Language'']))"
    and q: "getQuestions (snd (renameCategory oldest_first_state ''NLP'' ''Language''))
              = Inr (JArray (map (\<lambda>q. if category q = ''NLP'' then q\<lparr>category := ''Language''\<rparr> else q)
                      [question_a, question_b]))"
    using getQuestions_oldest_first by blast
  from i have "i = 4"
    by (auto simp: DEFAULT_CATEGORIES_def nth_Cons' less_Suc_eq split: if_splits)
  with g q show ?thesis
    by (simp add: DEFAULT_CATEGORIES_def question_a_def question_b_def mk_question_def)
qed

lemma getCategories_fresh: "getCategories fresh_state = Inr (JArray DEFAULT_CATEGORIES)"
  by (simp add: getCategories_def fresh_state_def)

lemma indexOf_Other_default: "indexOf ''Other'' DEFAULT_CATEGORIES = 8"
  by (simp add: indexOf_def DEFAULT_CATEGORIES_def)

text \<open>
  Claim C7 on a fresh store, where the category list is the default list with \<open>Other\<close>
  in it: the user opens the rename field of \<open>Other\<close>, types \<open>Misc\<close> and saves. The
  rename path has no guard like the one of the remove path: \<open>handleRenameCat\<close> passes
  the call on to \<open>renameCategory\<close>, which returns normally, and the stored category
  list then ends with \<open>Misc\<close> and holds no \<open>Other\<close>.
\<close>

theorem handleRenameCat_renames_Other:
  assumes "trim ''Misc'' = ''Misc''"
  shows "getCategories fresh_state = Inr (JArray DEFAULT_CATEGORIES) \<and>
         ''Other'' \<in> set DEFAULT_CATEGORIES \<and>
         handleRenameCat trim fresh_state ''Other'' ''Misc''
           = renameCategory fresh_state ''Other'' ''Misc'' \<and>
         fst (handleRenameCat trim fresh_state ''Other'' ''Misc'') = Inr () \<and>
         getCategories (snd (handleRenameCat trim fresh_state ''Other'' ''Misc''))
           = Inr (JArray [''Algorithm'', ''Reinforcement Learning'', ''SFT'', ''Machine Learning'',
                          ''NLP'', ''Multimodal'', ''Software Engineering'', ''Behavioral'',
                          ''Misc''])"
proof -
  have o: "''Other'' \<in> set DEFAULT_CATEGORIES" by (simp add: DEFAULT_CATEGORIES_def)
  have h: "handleRenameCat trim fresh_state ''Other'' ''Misc''
           = renameCategory fresh_state ''Other'' ''Misc''"
    using assms by (simp add: handleRenameCat_def)
  from renameCategory_questions [OF getCategories_fresh o getQuestions_fresh, of "''Misc''"]
  have r: "fst (renameCategory fresh_state ''Other'' ''Misc'') = Inr ()" by simp
  from renameCategory_array [OF getCategories_fresh o, of "''Misc''"]
  have c: "getCategories (snd (renameCategory fresh_state ''Other'' ''Misc''))
           = Inr (JArray (DEFAULT_CATEGORIES[8 := ''Misc'']))"
    by (simp add: indexOf_Other_default)
  have "DEFAULT_CATEGORIES[8 := ''Misc'']
        = [''Algorithm'', ''Reinforcement Learning'', ''SFT'', ''Machine Learning'',
           ''NLP'', ''Multimodal'', ''Software Engineering'', ''Behavioral'', ''Misc'']"
    by (simp add: DEFAULT_CATEGORIES_def)
  with getCategories_fresh o h r c show ?thesis by simp
qed

theorem handleRenameCat_renames_Other_witness:
  "fst (handleRenameCat (\<lambda>s. s) fresh_state ''Other'' ''Misc'') = Inr () \<and>
   getCategories (snd (handleRenameCat (\<lambda>s. s) fresh_state ''Other'' ''Misc''))
     = Inr (JArray [''Algorithm'', ''Reinforcement Learning'', ''SFT'', ''Machine Learning'',
                    ''NLP'', ''Multimodal'', ''Software Engineering'', ''Behavioral'',
                    ''Misc''])"
proof -
  have "(\<lambda>s :: string. s) ''Misc'' = ''Misc''" by simp
  from handleRenameCat_renames_Other [of "\<lambda>s. s", OF this] show ?thesis by blast
qed

section \<open>Properties of the filtered view\<close>

lemma includes_js_sublist: "includes_js s t \<longleftrightarrow> sublist t s"
proof (induction s)
  case Nil
  then show ?case by simp
next
  case (Cons c s)
  have "take (length t) (c # s) = t \<longleftrightarrow> prefix t (c # s)"
    by (metis append_eq_conv_conj prefix_def take_is_prefix)
  with Cons show ?case by (simp add: sublist_Cons_right)
qed

text \<open>What the two recursive definitions say.\<close>

lemma caseless_prefix_iff:
  "caseless_prefix same q t \<longleftrightarrow> (\<exists>w. prefix w t \<and> list_all2 same q w)"
proof (induction same q t rule: caseless_prefix.induct)
  case (1 same t)
  then show ?case by auto
next
  case (2 same c q)
  then show ?case by (auto simp: list_all2_Cons1)
next
  case (3 same c q d t)
  show ?case
  proof
    assume "caseless_prefix same (c # q) (d # t)"
    with 3 obtain w where "same c d" "prefix w t" "list_all2 same q w" by auto
    then have "prefix (d # w) (d # t) \<and> list_all2 same (c # q) (d # w)" by simp
    then show "\<exists>w. prefix w (d # t) \<and> list_all2 same (c # q) w" by blast
  next
    assume "\<exists>w. prefix w (d # t) \<and> list_all2 same (c # q) w"
    then obtain w where w: "prefix w (d # t)" "list_all2 same (c # q) w" by blast
    from w(2) obtain e w' where e: "w = e # w'" "same c e" "list_all2 same q w'"
      by (auto simp: list_all2_Cons1)
    with w(1) have "e = d" "prefix w' t" by simp_all
    with e 3 show "caseless_prefix same (c # q) (d # t)" by auto
  qed
qed

lemma caseless_occurs_iff:
  "caseless_occurs same q t \<longleftrightarrow> (\<exists>w. sublist w t \<and> list_all2 same q w)"
proof (induction t)
  case Nil
  then show ?case by (auto simp: list_all2_Nil2)
next
  case (Cons d t)
  then show ?case
    by (auto simp: caseless_prefix_iff sublist_Cons_right)
qed

lemma caseless_occurs_verbatim:
  assumes "\<And>c. same c c" and "sublist q t"
  shows "caseless_occurs same q t"
  unfolding caseless_occurs_iff using assms by (auto simp: list_all2_same intro!: exI [of _ q])

lemma take_map_caseless_prefix:
  "take (length q) (map f t) = map f q \<longleftrightarrow> caseless_prefix (\<lambda>c d. f c = f d) q t"
  by (induction "\<lambda>c d. f c = f d" q t rule: caseless_prefix.induct) auto

lemma includes_js_map:
  "includes_js (map f t) (map f q) \<longleftrightarrow> caseless_occurs (\<lambda>c d. f c = f d) q t"
proof (induction t)
  case Nil
  then show ?case by simp
next
  case (Cons d t)
  have "take (length (map f q)) (map f (d # t)) = map f q
        \<longleftrightarrow> caseless_prefix (\<lambda>c d. f c = f d) q (d # t)"
    using take_map_caseless_prefix [of q f "d # t"] by simp
  with Cons show ?case by simp
qed

lemma matchDate_date_predicate: "matchDate df now q = date_predicate df now q"
  by (simp add: matchDate_def date_predicate_def bucket_days_def Let_def)

lemma Array_filter_pointwise:
  "\<forall>x\<in>set xs. p x = Inr (P x) \<Longrightarrow> Array_filter p xs = Inr (filter P xs)"
  by (induction xs) simp_all

lemma matchSearch_letterwise:
  assumes lw: "\<forall>s. set s \<subseteq> A \<longrightarrow> toLowerCase s = map f s"
    and sq: "set sq \<subseteq> A"
    and t: "set (text_q q) \<subseteq> A"
    and c: "case companyTag q of None \<Rightarrow> True | Some tag \<Rightarrow> set tag \<subseteq> A"
  shows "matchSearch toLowerCase sq q = Inr (text_predicate (\<lambda>c d. f c = f d) sq q)"
proof -
  from lw sq have lsq: "toLowerCase sq = map f sq" by simp
  from lw t have lt: "toLowerCase (text_q q) = map f (text_q q)" by simp
  show ?thesis
  proof (cases "companyTag q")
    case None
    then show ?thesis
      by (simp add: matchSearch_def text_predicate_def lsq lt includes_js_map)
  next
    case (Some tag)
    with lw c have ltag: "toLowerCase tag = map f tag" by simp
    show ?thesis
    proof (cases "tag = []")
      case True
      have "caseless_occurs (\<lambda>c d. f c = f d) [] (text_q q)"
        by (cases "text_q q") simp_all
      with Some True show ?thesis
        by (auto simp: matchSearch_def text_predicate_def lsq lt includes_js_map)
    next
      case False
      with Some show ?thesis
        by (simp add: matchSearch_def text_predicate_def lsq lt ltag includes_js_map)
    qed
  qed
qed

lemma filteredQuestions_letterwise:
  assumes lw: "\<forall>s. set s \<subseteq> A \<longrightarrow> toLowerCase s = map f s"
    and sq: "set sq \<subseteq> A"
    and qs: "\<forall>q\<in>set qs. set (text_q q) \<subseteq> A \<and>
               (case companyTag q of None \<Rightarrow> True | Some tag \<Rightarrow> set tag \<subseteq> A)"
  shows "filteredQuestions toLowerCase qs cat df sq now
         = Inr (filter (\<lambda>q. category_predicate cat q \<and> date_predicate df now q \<and>
                            text_predicate (\<lambda>c d. f c = f d) sq q) qs)"
  unfolding filteredQuestions_def
proof (rule Array_filter_pointwise, rule ballI)
  fix q assume "q \<in> set qs"
  with qs have "set (text_q q) \<subseteq> A"
    and "case companyTag q of None \<Rightarrow> True | Some tag \<Rightarrow> set tag \<subseteq> A" by simp_all
  from matchSearch_letterwise [OF lw sq this]
  show "(case matchSearch toLowerCase sq q of
           Inl e \<Rightarrow> Inl e
         | Inr found \<Rightarrow> Inr (matchCategory cat q \<and> matchDate df now q \<and> found))
        = Inr (category_predicate cat q \<and> date_predicate df now q \<and>
               text_predicate (\<lambda>c d. f c = f d) sq q)"
    by (simp add: matchCategory_def category_predicate_def matchDate_date_predicate)
qed

lemma of_char_less_256: "(of_char c :: nat) < 256"
proof -
  have "(of_char c :: nat) mod 256 = of_char c" by (rule of_char_mod_256)
  then show ?thesis by (metis mod_less_divisor zero_less_numeral)
qed

lemma of_char_ascii_small:
  "(of_char (ascii_small c) :: nat)
   = (if 65 \<le> (of_char c :: nat) \<and> (of_char c :: nat) \<le> 90 then of_char c + 32 else of_char c)"
  by (simp add: ascii_small_def)

lemma ascii_same_letter_small: "ascii_same_letter c d \<longleftrightarrow> ascii_small c = ascii_small d"
proof -
  have "ascii_small c = ascii_small d
        \<longleftrightarrow> (of_char (ascii_small c) :: nat) = of_char (ascii_small d)" by simp
  also have "\<dots> \<longleftrightarrow> ascii_same_letter c d"
    unfolding of_char_ascii_small ascii_same_letter_def
    using of_char_eq_iff [of c d, where ?'a = nat] by auto
  finally show ?thesis by simp
qed

lemma filteredQuestions_ascii:
  assumes lw: "\<forall>s. set s \<subseteq> A \<longrightarrow> toLowerCase s = map ascii_small s"
    and sq: "set sq \<subseteq> A"
    and qs: "\<forall>q\<in>set qs. set (text_q q) \<subseteq> A \<and>
               (case companyTag q of None \<Rightarrow> True | Some tag \<Rightarrow> set tag \<subseteq> A)"
  shows "filteredQuestions toLowerCase qs cat df sq now
         = Inr (filter (\<lambda>q. category_predicate cat q \<and> date_predicate df now q \<and>
                            text_predicate ascii_same_letter sq q) qs)"
proof -
  have "(\<lambda>c d. ascii_small c = ascii_small d) = ascii_same_letter"
    by (intro ext) (simp add: ascii_same_letter_small)
  with filteredQuestions_letterwise [OF lw sq qs, of cat df now] show ?thesis by simp
qed

text \<open>
  A store of two records with ASCII texts, no filter on category or date: the query
  \<open>TELL\<close> keeps the record whose text starts with \<open>Tell\<close> and drops the other.
\<close>

lemma filteredQuestions_ascii_example:
  "filteredQuestions (map ascii_small) [question_a, question_b] ''All'' ''all'' ''TELL'' 1000
     = Inr [question_b] \<and>
   text_predicate ascii_same_letter ''TELL'' question_b \<and>
   \<not> text_predicate ascii_same_letter ''TELL'' question_a \<and>
   filteredQuestions (map ascii_small) [question_a, question_b] ''NLP'' ''all'' [] 1000
     = Inr [question_a]"
  by code_simp

text \<open>
  Whatever the engine's \<open>toLowerCase\<close> does, the callback never throws, and the result
  is the input with some records left out, in the order of the input; what is kept are
  the records that pass the category test, the date test and the search test.
\<close>

lemma matchSearch_never_throws: "\<exists>found. matchSearch toLowerCase sq q = Inr found"
  by (cases "companyTag q") (auto simp: matchSearch_def)

lemma filteredQuestions_never_throws:
  "\<exists>ys. filteredQuestions toLowerCase qs cat df sq now = Inr ys \<and> subseq ys qs \<and>
        ys = filter (\<lambda>q. category_predicate cat q \<and> date_predicate df now q \<and>
                            matchSearch toLowerCase sq q = Inr True) qs"
proof -
  have "\<forall>q\<in>set qs.
          (case matchSearch toLowerCase sq q of
             Inl e \<Rightarrow> Inl e
           | Inr found \<Rightarrow> Inr (matchCategory cat q \<and> matchDate df now q \<and> found))
          = Inr (category_predicate cat q \<and> date_predicate df now q \<and>
                 matchSearch toLowerCase sq q = Inr True)"
  proof
    fix q
    from matchSearch_never_throws [of toLowerCase sq q]
    obtain found where "matchSearch toLowerCase sq q = Inr found" ..
    then show "(case matchSearch toLowerCase sq q of
             Inl e \<Rightarrow> Inl e
           | Inr found \<Rightarrow> Inr (matchCategory cat q \<and> matchDate df now q \<and> found))
          = Inr (category_predicate cat q \<and> date_predicate df now q \<and>
                 matchSearch toLowerCase sq q = Inr True)"
      by (simp add: matchCategory_def category_predicate_def matchDate_date_predicate)
  qed
  then have "filteredQuestions toLowerCase qs cat df sq now
        = Inr (filter (\<lambda>q. category_predicate cat q \<and> date_predicate df now q \<and>
                            matchSearch toLowerCase sq q = Inr True) qs)"
    unfolding filteredQuestions_def by (rule Array_filter_pointwise)
  then show ?thesis by simp
qed

text \<open>
  Claim C9 at a record whose text is the two Greek capitals alpha and sigma, with the
  capital sigma as the query and no filter on category or date. The query stands in the
  text as it is, so the record passes the text predicate; but the engine lower-cases the
  sigma at the end of the text to the final form and the query to the plain small sigma,
  and \<open>filteredQuestions\<close> returns the empty list.
\<close>

theorem filteredQuestions_final_sigma:
  assumes "toLowerCase capital_alpha_sigma = small_alpha_final_sigma"
    and "toLowerCase capital_sigma = small_sigma"
  shows "text_q greek_question = capital_alpha_sigma \<and>
         sublist capital_sigma (text_q greek_question) \<and>
         text_predicate ascii_same_letter capital_sigma greek_question \<and>
         filteredQuestions toLowerCase [greek_question] ''All'' ''all'' capital_sigma now = Inr []"
proof -
  have t: "text_q greek_question = capital_alpha_sigma"
    by (simp add: greek_question_def mk_question_def)
  have "capital_alpha_sigma = [CHR 0xCE, CHR 0x91] @ capital_sigma @ []"
    by (simp add: capital_alpha_sigma_def capital_sigma_def)
  then have s: "sublist capital_sigma capital_alpha_sigma"
    unfolding sublist_def by blast
  have "\<And>c. ascii_same_letter c c" by (simp add: ascii_same_letter_def)
  then have "caseless_occurs ascii_same_letter capital_sigma capital_alpha_sigma"
    using s by (rule caseless_occurs_verbatim)
  then have p: "text_predicate ascii_same_letter capital_sigma greek_question"
    by (simp add: text_predicate_def t)
  have n: "\<not> includes_js small_alpha_final_sigma small_sigma"
    by (simp add: small_alpha_final_sigma_def small_sigma_def)
  have "matchSearch toLowerCase capital_sigma greek_question = Inr False"
    using assms n by (simp add: matchSearch_def t greek_question_def mk_question_def)
  then have "filteredQuestions toLowerCase [greek_question] ''All'' ''all'' capital_sigma now = Inr []"
    by (simp add: filteredQuestions_def)
  with t s p show ?thesis by simp
qed

theorem filteredQuestions_final_sigma_witness:
  "sublist capital_sigma (text_q greek_question) \<and>
   filteredQuestions
     (\<lambda>s. if s = capital_alpha_sigma then small_alpha_final_sigma
          else if s = capital_sigma then small_sigma else s)
     [greek_question] ''All'' ''all'' capital_sigma 1000 = Inr []"
proof -
  have "capital_sigma \<noteq> capital_alpha_sigma"
    by (simp add: capital_sigma_def capital_alpha_sigma_def)
  then show ?thesis
    using filteredQuestions_final_sigma
      [of "\<lambda>s. if s = capital_alpha_sigma then small_alpha_final_sigma
               else if s = capital_sigma then small_sigma else s" 1000]
    by auto
qed

end
